theory Spec2Isabelle
  imports Main "HOL-Library.Word"
begin

unbundle bit_operations_syntax

section \<open>The elastic pipeline scheduler of pkg/engine/pipeline.go\<close>

text \<open>
  The definitions come first: the summation loop over the probes, the worker handle
  (\<open>pipelineInstance\<close>), the common scheduler with \<open>startPipeline\<close> and
  \<open>StopPipeline\<close>, the dynamic scheduler with its trigger hook and its launcher,
  spawner and shrinker loops, and the tasks of a handle.  The properties follow, one
  subsection for each part.  Go's \<open>uint32\<close> is \<open>32 word\<close>, so \<open>+\<close> and
  \<open>-\<close> wrap around as they do in the source.
\<close>

type_synonym u32 = "32 word"

subsection \<open>Queue-length probes and the summation loop of spawn() and shrink()\<close>

text \<open>
  A \<open>SourceInputQueueLengthGetter\<close> is a Go closure \<open>func() uint32\<close>: it reads
  the state of its source, and calling it is an effect.  It is modelled as a function
  from the environment \<open>'e\<close> of the sources to the returned length and the
  environment after the call.
\<close>

type_synonym 'e getter = "'e \<Rightarrow> u32 \<times> 'e"

text \<open>
  Lines 354-360 (spawn) and 398-404 (shrink) are the same loop:
  \<^verbatim>\<open>
  var queueLength uint32
  for _, getter := range scheduler.getters {
      l := getter()
      if l+queueLength > queueLength { // defense overflow
          queueLength = l + queueLength
      }
  }
  \<close>
  \<open>sumQueueLength\<close> is that loop over the getters in the order in which the
  \<open>range\<close> visits them (Go leaves the order of a map iteration open).
\<close>

fun sumQueueLength :: "u32 \<Rightarrow> 'e getter list \<Rightarrow> 'e \<Rightarrow> u32 \<times> 'e" where
  "sumQueueLength queueLength [] w = (queueLength, w)"
| "sumQueueLength queueLength (getter # gs) w =
     (case getter w of (l, w') \<Rightarrow>
        sumQueueLength (if l + queueLength > queueLength then l + queueLength else queueLength) gs w')"

text \<open>The values the getters return when they are called one after the other.\<close>

fun probeValues :: "'e getter list \<Rightarrow> 'e \<Rightarrow> u32 list" where
  "probeValues [] w = []"
| "probeValues (getter # gs) w = (case getter w of (l, w') \<Rightarrow> l # probeValues gs w')"

text \<open>A probe that reports a fixed length and leaves the environment alone.\<close>

definition constGetter :: "u32 \<Rightarrow> 'e getter" where
  "constGetter v w = (v, w)"

text \<open>
  The spec's words for the overflow guard, on unbounded numbers: ``additions that would
  wrap are dropped from the sum''.
\<close>

fun dropWrappingSum :: "nat \<Rightarrow> nat list \<Rightarrow> nat" where
  "dropWrappingSum q [] = q"
| "dropWrappingSum q (l # ls) = dropWrappingSum (if l + q < 2 ^ 32 then l + q else q) ls"


subsection \<open>The worker handle\<close>

text \<open>
  \<open>pipelineInstance\<close> (lines 18-23) wraps one worker and three channels of
  \<open>struct{}\<close> that are never sent on, only closed: each is modelled by the flag
  ``has been closed''.  The field \<open>instance\<close> is called \<open>inst\<close> and the
  channels \<open>stopCh\<close>, \<open>stoppedCh\<close>, \<open>doneCh\<close>, since \<open>instance\<close> and
  \<open>done\<close> are keywords here.
\<close>

record 'w pipelineInstance =
  inst :: 'w
  stopCh :: bool
  stoppedCh :: bool
  doneCh :: bool

definition newPipelineInstance :: "'w \<Rightarrow> 'w pipelineInstance" where
  "newPipelineInstance p = \<lparr>inst = p, stopCh = False, stoppedCh = False, doneCh = False\<rparr>"

text \<open>
  What a function call does besides changing the state: it returns, it never returns
  (a receive on a channel nobody closes), or it panics (closing a closed channel,
  sending on a closed channel, calling a nil function).  \<open>Blocks\<close> keeps the state
  reached when the caller got stuck, since the other tasks go on from there.
\<close>

datatype 'a outcome = Returns 'a | Blocks 'a | Panics

subsection \<open>The common scheduler\<close>

text \<open>
  \<open>commonPipelineScheduler\<close> (lines 83-88).  The \<open>pipeline\<close> field is used for
  \<open>GetInstance\<close> only, which lives in package \<open>model\<close>; the results of its
  successive calls are a parameter \<open>GetInstance :: nat \<Rightarrow> 'w option\<close> of
  \<open>startPipeline\<close> (\<open>None\<close> is a non-nil \<open>err\<close>).  The locks are not
  modelled: every function below runs as one atomic step.
\<close>

record 'w commonPipelineScheduler =
  instances :: "'w pipelineInstance list"
  started :: u32
  stopped :: u32

definition newCommonPipelineScheduler :: "'w commonPipelineScheduler" where
  "newCommonPipelineScheduler = \<lparr>instances = [], started = 0, stopped = 0\<rparr>"

text \<open>
  The variables of package \<open>option\<close> that the file reads; their values are fixed
  outside the file.
\<close>

record options =
  PipelineInitParallelism :: u32
  PipelineMinParallelism :: u32
  PipelineMaxParallelism :: u32

text \<open>
  The loop of lines 122-140.  Every pass that gets a worker appends its handle, calls
  \<open>prepare\<close> and starts \<open>run\<close> as a task of its own (the handle's tasks are
  modelled in the section on the handle's teardown).
\<close>

function startPipeline_loop ::
  "(nat \<Rightarrow> 'w option) \<Rightarrow> u32 \<Rightarrow> u32 \<Rightarrow> u32 \<Rightarrow> 'w pipelineInstance list
     \<Rightarrow> 'w pipelineInstance list \<times> u32 \<times> u32" where
  "startPipeline_loop GetInstance parallelism idx currentParallelism insts =
     (if idx < parallelism then
        (case GetInstance (unat idx) of
           None \<Rightarrow> (insts, currentParallelism, idx)
         | Some pipeline \<Rightarrow>
             startPipeline_loop GetInstance parallelism (idx + 1) (currentParallelism + 1)
               (insts @ [newPipelineInstance pipeline]))
      else (insts, currentParallelism, idx))"
  by pat_completeness auto
termination
proof (relation "measure (\<lambda>(g, p, i, c, xs). unat p - unat i)")
  show "wf (measure (\<lambda>(g :: nat \<Rightarrow> 'w option, p :: u32, i :: u32, c :: u32,
      xs :: 'w pipelineInstance list). unat p - unat i))"
    by simp
next
  fix GetInstance :: "nat \<Rightarrow> 'w option" and parallelism idx currentParallelism :: u32
    and insts :: "'w pipelineInstance list" and x2 :: 'w
  assume lt: "idx < parallelism"
  then have "unat idx < unat parallelism" by (simp add: word_less_nat_alt)
  moreover have "unat parallelism < 2 ^ 32"
    using unsigned_less [of parallelism, where 'a = nat] by simp
  ultimately have "unat (idx + 1) = unat idx + 1"
    by (simp add: unat_word_ariths)
  then show "((GetInstance, parallelism, idx + 1, currentParallelism + 1,
        insts @ [newPipelineInstance x2]),
      (GetInstance, parallelism, idx, currentParallelism, insts))
    \<in> measure (\<lambda>(g, p, i, c, xs). unat p - unat i)"
    using \<open>unat idx < unat parallelism\<close> by simp
qed

declare startPipeline_loop.simps [simp del]

text \<open>
  \<open>startPipeline\<close> (lines 100-143) returns the scheduler, the current parallelism
  and the number of handles added.  \<open>uint32(len(scheduler.instances))\<close> truncates the
  length to 32 bits, and \<open>left\<close> is a \<open>uint32\<close> subtraction.
\<close>

definition startPipeline ::
  "options \<Rightarrow> (nat \<Rightarrow> 'w option) \<Rightarrow> u32 \<Rightarrow> ('w, 'z) commonPipelineScheduler_scheme
     \<Rightarrow> ('w, 'z) commonPipelineScheduler_scheme \<times> u32 \<times> u32" where
  "startPipeline opt GetInstance requested scheduler =
     (let parallelism = (if requested = 0 then 1 else requested);
          currentParallelism = (word_of_nat (length (instances scheduler)) :: u32)
      in if stopped scheduler = 1 \<or> currentParallelism = NOT 0
         then (scheduler, currentParallelism, 0)
         else
           (let left = PipelineMaxParallelism opt - currentParallelism;
                parallelism = (if parallelism > left then left else parallelism)
            in case startPipeline_loop GetInstance parallelism 0 currentParallelism
                      (instances scheduler) of
                 (insts, currentParallelism, idx) \<Rightarrow>
                   (scheduler\<lparr>instances := insts\<rparr>, currentParallelism, idx)))"

text \<open>
  \<open>StopPipeline\<close> (lines 154-170) calls \<open>stopPipelineInstance(idx, instance, false)\<close>
  on every handle in order and truncates the set.  It returns the scheduler and the
  handles it terminated.
\<close>

definition StopPipeline ::
  "('w, 'z) commonPipelineScheduler_scheme
     \<Rightarrow> ('w, 'z) commonPipelineScheduler_scheme \<times> 'w pipelineInstance list" where
  "StopPipeline scheduler = (scheduler\<lparr>instances := []\<rparr>, instances scheduler)"

subsection \<open>Time and the constants of the dynamic scheduler\<close>

text \<open>
  A \<open>time.Time\<close> is modelled by its count of nanoseconds since the Unix epoch, on one
  clock.  \<open>common.Now\<close> is not part of the file: the instants it returns are
  parameters \<open>now\<close>.  The zero \<open>time.Time\<close> (the value of \<open>launchTime\<close>,
  \<open>shrinkTime\<close> and of a missing map entry) is January 1 of year 1.
  \<open>Time.Sub\<close> returns a \<open>Duration\<close>, an \<open>int64\<close> of nanoseconds, and
  saturates at its bounds.
\<close>

definition zeroTime :: int where
  "zeroTime = - 62135596800000000000"

definition Sub :: "int \<Rightarrow> int \<Rightarrow> int" where
  "Sub t u = max (- (2 ^ 63)) (min (2 ^ 63 - 1) (t - u))"

text \<open>
  The tests \<open>now.Sub(t).Seconds()*1000 < C\<close> of lines 281, 300 and 428 compare
  a duration in milliseconds with a constant \<open>C\<close> of whole milliseconds.  The
  duration is a whole number of nanoseconds, so the test is modelled on the integer:
  \<open>d < C * 10^6\<close>.
\<close>

definition elapsedMsLess :: "int \<Rightarrow> int \<Rightarrow> bool" where
  "elapsedMsLess d ms = (d < ms * 1000000)"

definition SCHEDULER_DYNAMIC_SPAWN_MIN_INTERVAL_MS :: int where
  "SCHEDULER_DYNAMIC_SPAWN_MIN_INTERVAL_MS = 500"

definition SCHEDULER_DYNAMIC_SPAWN_MAX_IN_EACH :: u32 where
  "SCHEDULER_DYNAMIC_SPAWN_MAX_IN_EACH = 500"

definition SCHEDULER_DYNAMIC_FAST_SCALE_INTERVAL_MS :: int where
  "SCHEDULER_DYNAMIC_FAST_SCALE_INTERVAL_MS = 1000"

definition SCHEDULER_DYNAMIC_FAST_SCALE_MIN_COUNT :: u32 where
  "SCHEDULER_DYNAMIC_FAST_SCALE_MIN_COUNT = 5"

definition SCHEDULER_DYNAMIC_SHRINK_MIN_DELAY_MS :: int where
  "SCHEDULER_DYNAMIC_SHRINK_MIN_DELAY_MS = 500"

text \<open>
  \<open>SCHEDULER_DYNAMIC_FAST_SCALE_RATIO = 1.2\<close> is used in
  \<open>math.Ceil(float64(info.queueLength) * 1.2)\<close> only.  The \<open>float64\<close> nearest
  to \<open>1.2\<close> is \<open>0x3FF3333333333333\<close>, that is \<open>5404319552844595 * 2^-52\<close>.
  \<open>float64(queueLength)\<close> is exact, so the exact product is a whole number of
  units of \<open>2^-52\<close>, and the multiplication rounds it to 53 significant bits, ties
  to even.  \<open>roundToFloat64\<close> does that on the number of units; \<open>ceilScaled\<close>
  is the \<open>math.Ceil\<close> of the rounded product.
\<close>

fun bitLength :: "nat \<Rightarrow> nat" where
  "bitLength n = (if n = 0 then 0 else Suc (bitLength (n div 2)))"

declare bitLength.simps [simp del]

definition roundToFloat64 :: "nat \<Rightarrow> nat" where
  "roundToFloat64 n =
     (let e = bitLength n - 53
      in if e = 0 then n
         else
           (let m = n div 2 ^ e; r = n mod 2 ^ e; h = 2 ^ (e - 1);
                m' = (if r > h \<or> (r = h \<and> odd m) then m + 1 else m)
            in m' * 2 ^ e))"

definition SCHEDULER_DYNAMIC_FAST_SCALE_RATIO :: nat where
  "SCHEDULER_DYNAMIC_FAST_SCALE_RATIO = 5404319552844595"

definition ceilScaled :: "u32 \<Rightarrow> nat" where
  "ceilScaled queueLength =
     (roundToFloat64 (unat queueLength * SCHEDULER_DYNAMIC_FAST_SCALE_RATIO) + (2 ^ 52 - 1))
       div 2 ^ 52"

text \<open>
  The conversion \<open>uint32(f)\<close> of a \<open>float64\<close> that does not fit is left open
  by the language (the result depends on the implementation): \<open>outOfRange\<close> is
  that result, a parameter.
\<close>

definition uint32_of_float :: "(nat \<Rightarrow> u32) \<Rightarrow> nat \<Rightarrow> u32" where
  "uint32_of_float outOfRange n = (if n < 2 ^ 32 then word_of_nat n else outOfRange n)"

subsection \<open>The dynamic scheduler\<close>

text \<open>
  \<open>inputEvent\<close> (lines 183-187); a nil \<open>getter\<close> is \<open>None\<close>.
\<close>

record 'e inputEvent =
  getterName :: string
  getter :: "'e getter option"
  queueLength :: u32

text \<open>The three loops that \<open>Start\<close> launches with \<open>go\<close>.\<close>

datatype task = LaunchTask | SpawnTask | ShrinkTask

text \<open>
  \<open>dynamicPipelineScheduler\<close> (lines 189-204) embeds the common scheduler.
  \<open>ctx\<close> stands for the three values \<open>ctx\<close>, \<open>statistics\<close> and \<open>mod\<close> that
  \<open>Start\<close> books together (nil before).  \<open>launchChan\<close> is the content of the
  buffered channel (capacity 128) and \<open>launchChanClosed\<close> says whether it has been
  closed; \<open>spawnStop\<close>, \<open>spawnDone\<close> and \<open>shrinkStop\<close> are channels that are
  only closed.  \<open>goroutines\<close> is not a field of the source: it lists the loops that
  have been launched and have not returned.
\<close>

record ('w, 'e, 'c) dynamicPipelineScheduler = "'w commonPipelineScheduler" +
  ctx :: "'c option"
  getters :: "string \<rightharpoonup> 'e getter"
  launchChan :: "'e inputEvent list"
  launchChanClosed :: bool
  spawnStop :: bool
  spawnDone :: bool
  shrinkStop :: bool
  sourceLastScheduleTimes :: "string \<rightharpoonup> int"
  launchTime :: int
  shrinkTime :: int
  goroutines :: "task list"

definition newDynamicPipelineScheduler :: "('w, 'e, 'c) dynamicPipelineScheduler" where
  "newDynamicPipelineScheduler =
     \<lparr>instances = [], started = 0, stopped = 0,
      ctx = None, getters = Map.empty, launchChan = [], launchChanClosed = False,
      spawnStop = False, spawnDone = False, shrinkStop = False,
      sourceLastScheduleTimes = Map.empty, launchTime = zeroTime, shrinkTime = zeroTime,
      goroutines = []\<rparr>"

text \<open>
  \<open>Start\<close> (lines 222-242).  \<open>CompareAndSwapUint32(&started, 0, 1)\<close> succeeds
  exactly when \<open>started\<close> is \<open>0\<close>.
\<close>

definition Start ::
  "options \<Rightarrow> 'c \<Rightarrow> (nat \<Rightarrow> 'w option) \<Rightarrow> ('w, 'e, 'c) dynamicPipelineScheduler
     \<Rightarrow> ('w, 'e, 'c) dynamicPipelineScheduler" where
  "Start opt c GetInstance scheduler =
     (if started scheduler \<noteq> 0 then scheduler
      else
        (case startPipeline opt GetInstance (PipelineInitParallelism opt)
                (scheduler\<lparr>started := 1, ctx := Some c\<rparr>) of
           (s, parallelism, delta) \<Rightarrow>
             s\<lparr>goroutines := goroutines s @ [LaunchTask, SpawnTask, ShrinkTask]\<rparr>))"

text \<open>
  \<open>trigger\<close> (lines 244-266), with the environment of the sources threaded through
  the call of the probe.  The \<open>select\<close> with a \<open>default\<close> sends when the buffer
  has room and drops the event otherwise; a send on a closed channel panics.
\<close>

definition trigger ::
  "string \<Rightarrow> 'e getter option \<Rightarrow> ('w, 'e, 'c) dynamicPipelineScheduler \<Rightarrow> 'e
     \<Rightarrow> (('w, 'e, 'c) dynamicPipelineScheduler \<times> 'e) outcome" where
  "trigger name g scheduler w =
     (case g of
        None \<Rightarrow> Panics
      | Some probe \<Rightarrow>
          (case probe w of (l, w') \<Rightarrow>
             if l = 0 then Returns (scheduler, w')
             else if stopped scheduler = 1 then Returns (scheduler, w')
             else if launchChanClosed scheduler then Panics
             else if length (launchChan scheduler) < 128
             then Returns
               (scheduler\<lparr>launchChan := launchChan scheduler @
                   [\<lparr>getterName = name, getter = Some probe, queueLength = l\<rparr>]\<rparr>, w')
             else Returns (scheduler, w')))"

text \<open>
  The launcher, lines 276-296 of \<open>launch\<close>: the classification of the event and the
  per-source debounce.  \<open>None\<close> is the \<open>continue\<close> of line 283.  Line 279 reads
  the map; a missing key reads as the zero \<open>time.Time\<close> (\<open>lastScheduleAt\<close>).
\<close>

definition lastScheduleAt :: "('w, 'e, 'c) dynamicPipelineScheduler \<Rightarrow> string \<Rightarrow> int" where
  "lastScheduleAt scheduler name =
     (case sourceLastScheduleTimes scheduler name of None \<Rightarrow> zeroTime | Some t \<Rightarrow> t)"

definition debounce ::
  "int \<Rightarrow> 'e inputEvent \<Rightarrow> ('w, 'e, 'c) dynamicPipelineScheduler
     \<Rightarrow> ('w, 'e, 'c) dynamicPipelineScheduler option" where
  "debounce now info scheduler =
     (if getterName info \<noteq> [] \<and> getter info \<noteq> None then
        (let t = lastScheduleAt scheduler (getterName info)
         in if elapsedMsLess (Sub now t) SCHEDULER_DYNAMIC_SPAWN_MIN_INTERVAL_MS
            then None
            else Some (scheduler
              \<lparr>getters := (getters scheduler)(getterName info := getter info),
               sourceLastScheduleTimes :=
                 (sourceLastScheduleTimes scheduler)(getterName info \<mapsto> now)\<rparr>))
      else Some (scheduler
        \<lparr>sourceLastScheduleTimes :=
           (\<lambda>name. map_option (\<lambda>t. now) (sourceLastScheduleTimes scheduler name))\<rparr>))"

text \<open>Lines 300-314: the fast scale-up after a recent shrink, and the cap per event.\<close>

definition fastScale :: "(nat \<Rightarrow> u32) \<Rightarrow> u32 \<Rightarrow> u32" where
  "fastScale outOfRange q =
     (let l = uint32_of_float outOfRange (ceilScaled q);
          l = (if l < SCHEDULER_DYNAMIC_FAST_SCALE_MIN_COUNT
               then SCHEDULER_DYNAMIC_FAST_SCALE_MIN_COUNT else l)
      in if l > q then l else q)"

definition requestedCount :: "(nat \<Rightarrow> u32) \<Rightarrow> int \<Rightarrow> int \<Rightarrow> u32 \<Rightarrow> u32" where
  "requestedCount outOfRange now shrinkTime' q =
     (let q = (if elapsedMsLess (Sub now shrinkTime') SCHEDULER_DYNAMIC_FAST_SCALE_INTERVAL_MS
               then fastScale outOfRange q else q)
      in if q > SCHEDULER_DYNAMIC_SPAWN_MAX_IN_EACH
         then SCHEDULER_DYNAMIC_SPAWN_MAX_IN_EACH else q)"

text \<open>
  One pass of the launcher over a received event (lines 276-328).  \<open>now\<close> is the
  instant of line 276 and \<open>now'\<close> the one of line 323.  The result is the scheduler and
  the count passed to \<open>startPipeline\<close> (\<open>None\<close> when the pass ends at the
  \<open>continue\<close> without calling it).
\<close>

definition launchEvent ::
  "options \<Rightarrow> (nat \<Rightarrow> u32) \<Rightarrow> (nat \<Rightarrow> 'w option) \<Rightarrow> int \<Rightarrow> int \<Rightarrow> 'e inputEvent
     \<Rightarrow> ('w, 'e, 'c) dynamicPipelineScheduler
     \<Rightarrow> ('w, 'e, 'c) dynamicPipelineScheduler \<times> u32 option" where
  "launchEvent opt outOfRange GetInstance now now' info scheduler =
     (case debounce now info scheduler of
        None \<Rightarrow> (scheduler, None)
      | Some s \<Rightarrow>
          (let q = requestedCount outOfRange now (shrinkTime s) (queueLength info)
           in case startPipeline opt GetInstance q s of
                (s', parallelism, delta) \<Rightarrow>
                  ((if delta > 0 then s'\<lparr>launchTime := now'\<rparr> else s'), Some q)))"

text \<open>
  The receive of line 271: the head of the buffer; on an empty buffer the launcher
  waits, and returns once the channel is closed (the received \<open>nil\<close>).
\<close>

definition launch ::
  "options \<Rightarrow> (nat \<Rightarrow> u32) \<Rightarrow> (nat \<Rightarrow> 'w option) \<Rightarrow> int \<Rightarrow> int
     \<Rightarrow> ('w, 'e, 'c) dynamicPipelineScheduler
     \<Rightarrow> (('w, 'e, 'c) dynamicPipelineScheduler \<times> u32 option) outcome" where
  "launch opt outOfRange GetInstance now now' scheduler =
     (case launchChan scheduler of
        [] \<Rightarrow>
          if launchChanClosed scheduler
          then Returns (scheduler\<lparr>goroutines := remove1 LaunchTask (goroutines scheduler)\<rparr>, None)
          else Blocks (scheduler, None)
      | info # rest \<Rightarrow>
          Returns (launchEvent opt outOfRange GetInstance now now' info
                     (scheduler\<lparr>launchChan := rest\<rparr>)))"

text \<open>
  One tick of \<open>spawn\<close> up to its send (lines 341-371): the event it posts, if any.
  \<open>order\<close> is the order in which the \<open>range\<close> visits the keys of \<open>getters\<close>.
\<close>

definition spawnTick ::
  "options \<Rightarrow> string list \<Rightarrow> ('w, 'e, 'c) dynamicPipelineScheduler \<Rightarrow> 'e
     \<Rightarrow> 'e inputEvent option \<times> 'e" where
  "spawnTick opt order scheduler w =
     (let currentParallelism = (word_of_nat (length (instances scheduler)) :: u32)
      in if currentParallelism = PipelineMaxParallelism opt then (None, w)
         else
           (case sumQueueLength 0 (List.map_filter (getters scheduler) order) w of
              (q, w') \<Rightarrow>
                if q = 0 then (None, w')
                else (Some \<lparr>getterName = [], getter = None, queueLength = q\<rparr>, w')))"

text \<open>
  The spawner leaves its loop when it finds \<open>spawnStop\<close> closed (line 372); its
  deferred \<open>close(scheduler.spawnDone)\<close> panics on a closed channel.
\<close>

definition spawnReturn ::
  "('w, 'e, 'c) dynamicPipelineScheduler \<Rightarrow> ('w, 'e, 'c) dynamicPipelineScheduler outcome" where
  "spawnReturn scheduler =
     (if \<not> spawnStop scheduler then Blocks scheduler
      else if spawnDone scheduler then Panics
      else Returns (scheduler\<lparr>spawnDone := True,
                       goroutines := remove1 SpawnTask (goroutines scheduler)\<rparr>))"

text \<open>
  The shrinker leaves its loop when it finds \<open>shrinkStop\<close> closed (line 455).
\<close>

definition shrinkReturn ::
  "('w, 'e, 'c) dynamicPipelineScheduler \<Rightarrow> ('w, 'e, 'c) dynamicPipelineScheduler outcome" where
  "shrinkReturn scheduler =
     (if \<not> shrinkStop scheduler then Blocks scheduler
      else Returns (scheduler\<lparr>goroutines := remove1 ShrinkTask (goroutines scheduler)\<rparr>))"

text \<open>
  The part of a tick of \<open>shrink\<close> under the write lock (lines 414-447): the second
  check of the count, the cooldown after a launch, the pop from the tail.  The result
  holds the handle passed to \<open>stopPipelineInstance(idx, instance, true)\<close>, if any.
\<close>

definition shrinkLocked ::
  "options \<Rightarrow> int \<Rightarrow> ('w, 'e, 'c) dynamicPipelineScheduler
     \<Rightarrow> (('w, 'e, 'c) dynamicPipelineScheduler \<times> (nat \<times> 'w pipelineInstance) option) outcome"
  where
  "shrinkLocked opt now scheduler =
     (let currentParallelism = (word_of_nat (length (instances scheduler)) :: u32)
      in if currentParallelism \<le> PipelineMinParallelism opt then Returns (scheduler, None)
         else if elapsedMsLess (Sub now (launchTime scheduler))
                   SCHEDULER_DYNAMIC_SHRINK_MIN_DELAY_MS
         then Returns (scheduler, None)
         else
           (let idx = uint currentParallelism - 1
            in if idx < 0 \<or> int (length (instances scheduler)) \<le> idx then Panics
               else Returns
                 (scheduler\<lparr>instances := take (nat idx) (instances scheduler),
                            shrinkTime := now\<rparr>,
                  Some (nat idx, instances scheduler ! nat idx))))"

text \<open>One tick of \<open>shrink\<close> (lines 385-454).\<close>

definition shrinkTick ::
  "options \<Rightarrow> string list \<Rightarrow> int \<Rightarrow> ('w, 'e, 'c) dynamicPipelineScheduler \<Rightarrow> 'e
     \<Rightarrow> (('w, 'e, 'c) dynamicPipelineScheduler \<times> (nat \<times> 'w pipelineInstance) option \<times> 'e)
          outcome" where
  "shrinkTick opt order now scheduler w =
     (let currentParallelism = (word_of_nat (length (instances scheduler)) :: u32)
      in if currentParallelism \<le> PipelineMinParallelism opt then Returns (scheduler, None, w)
         else
           (case sumQueueLength 0 (List.map_filter (getters scheduler) order) w of
              (q, w') \<Rightarrow>
                if q \<noteq> 0 then Returns (scheduler, None, w')
                else
                  (case shrinkLocked opt now scheduler of
                     Returns (s, popped) \<Rightarrow> Returns (s, popped, w')
                   | Blocks (s, popped) \<Rightarrow> Blocks (s, popped, w')
                   | Panics \<Rightarrow> Panics)))"

text \<open>
  \<open>Stop\<close> (lines 461-474).  The receive on \<open>scheduler.spawnDone\<close> returns at once
  when the channel is closed; otherwise it waits for a running spawner, which finds
  \<open>spawnStop\<close> closed and returns; with no spawner it waits for ever.
\<close>

definition awaitSpawnDone ::
  "('w, 'e, 'c) dynamicPipelineScheduler \<Rightarrow> ('w, 'e, 'c) dynamicPipelineScheduler outcome" where
  "awaitSpawnDone scheduler =
     (if spawnDone scheduler then Returns scheduler
      else if SpawnTask \<in> set (goroutines scheduler) then spawnReturn scheduler
      else Blocks scheduler)"

definition Stop ::
  "('w, 'e, 'c) dynamicPipelineScheduler \<Rightarrow> ('w, 'e, 'c) dynamicPipelineScheduler outcome" where
  "Stop scheduler =
     (if stopped scheduler \<noteq> 0 then Returns scheduler
      else
        (let s = scheduler\<lparr>stopped := 1\<rparr>
         in if spawnStop s then Panics
            else
              (let s = s\<lparr>spawnStop := True\<rparr>
               in if shrinkStop s then Panics
                  else
                    (case awaitSpawnDone (s\<lparr>shrinkStop := True\<rparr>) of
                       Returns s \<Rightarrow>
                         if launchChanClosed s then Panics
                         else Returns (s\<lparr>launchChanClosed := True, started := 0\<rparr>)
                     | Blocks s \<Rightarrow> Blocks s
                     | Panics \<Rightarrow> Panics))))"

subsection \<open>The tasks of a handle: run() and terminate()\<close>













subsection \<open>Runs of the dynamic scheduler\<close>

text \<open>
  The blocking send of line 369: the spawner waits while the buffer is full.
\<close>

definition spawnSend ::
  "'e inputEvent \<Rightarrow> ('w, 'e, 'c) dynamicPipelineScheduler
     \<Rightarrow> ('w, 'e, 'c) dynamicPipelineScheduler outcome" where
  "spawnSend event scheduler =
     (if launchChanClosed scheduler then Panics
      else if length (launchChan scheduler) < 128
      then Returns (scheduler\<lparr>launchChan := launchChan scheduler @ [event]\<rparr>)
      else Blocks scheduler)"

text \<open>
  The moves that change a dynamic scheduler: the calls of its public functions, a call
  of \<open>startPipeline\<close> by anybody with any arguments, and one pass of each of the
  three loops.  A pass of a loop may be taken in any state, also when \<open>Start\<close>
  has not launched the loop: the runs of the model include those of the program.
  \<open>statesOf\<close> lists the states a run passes through; a panic ends the run, and a
  task that blocks leaves the others running.
\<close>

datatype ('w, 'e, 'c) action =
    ActStart 'c "nat \<Rightarrow> 'w option"
  | ActStartPipeline "nat \<Rightarrow> 'w option" u32
  | ActTrigger string "'e getter option"
  | ActLaunch "nat \<Rightarrow> 'w option" int int
  | ActSpawn "string list"
  | ActSpawnReturn
  | ActShrink "string list" int
  | ActShrinkReturn
  | ActStop
  | ActStopPipeline

fun withEnv :: "'e \<Rightarrow> 's outcome \<Rightarrow> ('s \<times> 'e) outcome" where
  "withEnv w (Returns s) = Returns (s, w)"
| "withEnv w (Blocks s) = Blocks (s, w)"
| "withEnv w Panics = Panics"

definition act ::
  "options \<Rightarrow> (nat \<Rightarrow> u32) \<Rightarrow> ('w, 'e, 'c) action
     \<Rightarrow> ('w, 'e, 'c) dynamicPipelineScheduler \<times> 'e
     \<Rightarrow> (('w, 'e, 'c) dynamicPipelineScheduler \<times> 'e) outcome" where
  "act opt outOfRange a cfg =
     (case cfg of (scheduler, w) \<Rightarrow>
        (case a of
           ActStart c GetInstance \<Rightarrow> Returns (Start opt c GetInstance scheduler, w)
         | ActStartPipeline GetInstance n \<Rightarrow>
             Returns (fst (startPipeline opt GetInstance n scheduler), w)
         | ActTrigger name g \<Rightarrow> trigger name g scheduler w
         | ActLaunch GetInstance now now' \<Rightarrow>
             (case launch opt outOfRange GetInstance now now' scheduler of
                Returns (s, q) \<Rightarrow> Returns (s, w)
              | Blocks (s, q) \<Rightarrow> Blocks (s, w)
              | Panics \<Rightarrow> Panics)
         | ActSpawn order \<Rightarrow>
             (case spawnTick opt order scheduler w of
                (None, w') \<Rightarrow> Returns (scheduler, w')
              | (Some event, w') \<Rightarrow> withEnv w' (spawnSend event scheduler))
         | ActSpawnReturn \<Rightarrow> withEnv w (spawnReturn scheduler)
         | ActShrink order now \<Rightarrow>
             (case shrinkTick opt order now scheduler w of
                Returns (s, popped, w') \<Rightarrow> Returns (s, w')
              | Blocks (s, popped, w') \<Rightarrow> Blocks (s, w')
              | Panics \<Rightarrow> Panics)
         | ActShrinkReturn \<Rightarrow> withEnv w (shrinkReturn scheduler)
         | ActStop \<Rightarrow> withEnv w (Stop scheduler)
         | ActStopPipeline \<Rightarrow> Returns (fst (StopPipeline scheduler), w)))"

fun statesOf ::
  "options \<Rightarrow> (nat \<Rightarrow> u32) \<Rightarrow> ('w, 'e, 'c) action list
     \<Rightarrow> ('w, 'e, 'c) dynamicPipelineScheduler \<times> 'e
     \<Rightarrow> (('w, 'e, 'c) dynamicPipelineScheduler \<times> 'e) list" where
  "statesOf opt outOfRange [] cfg = [cfg]"
| "statesOf opt outOfRange (a # as) cfg =
     cfg # (case act opt outOfRange a cfg of
              Returns cfg' \<Rightarrow> statesOf opt outOfRange as cfg'
            | Blocks cfg' \<Rightarrow> statesOf opt outOfRange as cfg'
            | Panics \<Rightarrow> [])"

subsection \<open>Invariants of a handle's teardown\<close>






subsection \<open>Concrete inputs\<close>

definition exampleOptions :: options where
  "exampleOptions = \<lparr>PipelineInitParallelism = 2, PipelineMinParallelism = 1, PipelineMaxParallelism = 3\<rparr>"

definition alwaysInstance :: "nat \<Rightarrow> nat option" where
  "alwaysInstance i = Some i"

definition neverInstance :: "nat \<Rightarrow> nat option" where
  "neverInstance i = None"

definition wrapOutOfRange :: "nat \<Rightarrow> u32" where
  "wrapOutOfRange n = word_of_nat n"

definition exampleRun :: "(nat, unit, unit) action list" where
  "exampleRun =
     [ActStart () alwaysInstance,
      ActTrigger ''a'' (Some (constGetter 4)),
      ActLaunch alwaysInstance 1000000000 1000000001,
      ActStartPipeline alwaysInstance 100,
      ActShrink [''a''] 2000000000]"

text \<open>
  A scheduler that has been started, and the same scheduler after \<open>Stop\<close>.
\<close>

definition startedExample :: "(nat, unit, unit) dynamicPipelineScheduler" where
  "startedExample = Start exampleOptions () alwaysInstance newDynamicPipelineScheduler"

definition stoppedExample :: "(nat, unit, unit) dynamicPipelineScheduler" where
  "stoppedExample =
     \<lparr>instances = [newPipelineInstance 0, newPipelineInstance 1], started = 0, stopped = 1,
      ctx = Some (), getters = Map.empty, launchChan = [], launchChanClosed = True,
      spawnStop = True, spawnDone = True, shrinkStop = True,
      sourceLastScheduleTimes = Map.empty, launchTime = zeroTime, shrinkTime = zeroTime,
      goroutines = [LaunchTask, ShrinkTask]\<rparr>"


text \<open>
  A scheduler whose last shrink was at the instant \<open>5 s\<close>, and the event of a
  sweep by the spawner.
\<close>

definition shrunkExample :: "(nat, unit, unit) dynamicPipelineScheduler" where
  "shrunkExample = newDynamicPipelineScheduler\<lparr>shrinkTime := 5000000000\<rparr>"

definition sweepEvent :: "u32 \<Rightarrow> unit inputEvent" where
  "sweepEvent q = \<lparr>getterName = [], getter = None, queueLength = q\<rparr>"

text \<open>
  A scheduler that accepted a trigger of source \<open>a\<close> at the instant \<open>1 s\<close>; the
  event of a trigger; a probe that counts its calls in the environment; and a new
  scheduler on which \<open>Stop\<close> has been called.
\<close>

definition ledgerExample :: "(nat, unit, unit) dynamicPipelineScheduler" where
  "ledgerExample =
     newDynamicPipelineScheduler\<lparr>sourceLastScheduleTimes := [''a'' \<mapsto> 1000000000]\<rparr>"

definition triggerEvent :: "string \<Rightarrow> u32 \<Rightarrow> unit inputEvent" where
  "triggerEvent name q = \<lparr>getterName = name, getter = Some (constGetter q), queueLength = q\<rparr>"

definition countingGetter :: "u32 \<Rightarrow> nat getter" where
  "countingGetter v calls = (v, Suc calls)"

definition waitingStop :: "(nat, nat, unit) dynamicPipelineScheduler" where
  "waitingStop =
     newDynamicPipelineScheduler\<lparr>stopped := 1, spawnStop := True, shrinkStop := True\<rparr>"

text \<open>
  A scheduler whose \<open>Start\<close> got no worker from \<open>GetInstance\<close>, and a started
  scheduler whose last launch was at the instant \<open>3 s\<close>.
\<close>

definition failedStartExample :: "(nat, unit, unit) dynamicPipelineScheduler" where
  "failedStartExample = Start exampleOptions () neverInstance newDynamicPipelineScheduler"

definition busyExample :: "(nat, unit, unit) dynamicPipelineScheduler" where
  "busyExample = startedExample\<lparr>launchTime := 3000000000\<rparr>"

subsection \<open>Properties of the summation loop\<close>

lemma guard_step:
  fixes l q :: u32
  shows "unat (if l + q > q then l + q else q) =
         (if unat l + unat q < 2 ^ 32 then unat l + unat q else unat q)"
proof -
  have bl: "unat l < 2 ^ 32" and bq: "unat q < 2 ^ 32"
    using unsigned_less [of l, where 'a = nat] unsigned_less [of q, where 'a = nat] by simp_all
  have s: "unat (l + q) = (unat l + unat q) mod 2 ^ 32"
    by (simp add: unat_word_ariths)
  show ?thesis
  proof (cases "unat l + unat q < 2 ^ 32")
    case True
    then have e: "unat (l + q) = unat l + unat q" using s by simp
    show ?thesis
    proof (cases "l = 0")
      case True
      then show ?thesis by simp
    next
      case False
      then have "0 < unat l" by (simp add: unat_gt_0)
      then have "q < l + q" using e by (simp add: word_less_nat_alt)
      then show ?thesis using True e by simp
    qed
  next
    case False
    then have "(unat l + unat q) mod 2 ^ 32 = unat l + unat q - 2 ^ 32"
      using bl bq by (simp add: mod_if)
    then have "unat (l + q) < unat q"
      using s bl False by simp
    then have "\<not> q < l + q" by (simp add: word_less_nat_alt)
    then show ?thesis using False by simp
  qed
qed

lemma sumQueueLength_refines:
  "unat (fst (sumQueueLength q gs w)) = dropWrappingSum (unat q) (map unat (probeValues gs w))"
proof (induction gs arbitrary: q w)
  case Nil
  then show ?case by simp
next
  case (Cons g gs)
  obtain l w' where g: "g w = (l, w')" by (cases "g w")
  define q' where "q' = (if l + q > q then l + q else q)"
  have "unat q' = (if unat l + unat q < 2 ^ 32 then unat l + unat q else unat q)"
    unfolding q'_def by (rule guard_step)
  moreover have "sumQueueLength q (g # gs) w = sumQueueLength q' gs w'"
    using g by (simp add: q'_def)
  moreover have "probeValues (g # gs) w = l # probeValues gs w'"
    using g by simp
  ultimately show ?case using Cons.IH [of q' w'] by simp
qed

lemma dropWrappingSum_le: "dropWrappingSum q ls \<le> q + sum_list ls"
proof (induction ls arbitrary: q)
  case Nil
  then show ?case by simp
next
  case (Cons l ls)
  show ?case using Cons.IH [of "l + q"] Cons.IH [of q] by simp
qed

lemma dropWrappingSum_exact:
  "q + sum_list ls < 2 ^ 32 \<Longrightarrow> dropWrappingSum q ls = q + sum_list ls"
  by (induction ls arbitrary: q) auto

lemma dropWrappingSum_mono: "q \<le> dropWrappingSum q ls"
proof (induction ls arbitrary: q)
  case Nil
  then show ?case by simp
next
  case (Cons l ls)
  show ?case using Cons.IH [of "l + q"] Cons.IH [of q] by simp
qed

lemma dropWrappingSum_zero:
  "\<forall>l\<in>set ls. l < 2 ^ 32 \<Longrightarrow>
   (dropWrappingSum q ls = 0) = (q = 0 \<and> (\<forall>l\<in>set ls. l = 0))"
proof (induction ls arbitrary: q)
  case Nil
  then show ?case by simp
next
  case (Cons l ls)
  then show ?case using dropWrappingSum_mono [of "l + q" ls] by auto
qed

lemma sumQueueLength_zero_iff:
  "(fst (sumQueueLength 0 gs w) = 0) = (\<forall>l\<in>set (probeValues gs w). l = 0)"
proof -
  have b: "\<forall>n\<in>set (map unat (probeValues gs w)). n < 2 ^ 32"
    using unsigned_less [where 'a = nat and 'b = 32] by auto
  have "(fst (sumQueueLength 0 gs w) = 0) = (unat (fst (sumQueueLength 0 gs w)) = 0)"
    by (simp add: unat_eq_0)
  also have "\<dots> = (dropWrappingSum 0 (map unat (probeValues gs w)) = 0)"
    using sumQueueLength_refines [of 0 gs w] by simp
  also have "\<dots> = (\<forall>n\<in>set (map unat (probeValues gs w)). n = 0)"
    using dropWrappingSum_zero [OF b, of 0] by simp
  also have "\<dots> = (\<forall>l\<in>set (probeValues gs w). l = 0)"
    by (simp add: unat_eq_0)
  finally show ?thesis .
qed

text \<open>
  Claim C2, as the spec states it: the loop's result equals
  \<open>min(UINT32_MAX, mathematical sum)\<close> for every collection of probe values.
  It fails for two probes that report \<open>2^31\<close> each: the second addition would wrap
  to \<open>0\<close>, the guard drops it, and the loop ends with \<open>2^31\<close>, not with
  \<open>UINT32_MAX\<close>.
\<close>

theorem sumQueueLength_not_saturating:
  "fst (sumQueueLength 0 [constGetter 2147483648, constGetter 2147483648] ()) = 2147483648
   \<and> probeValues [constGetter 2147483648, constGetter 2147483648] () = [2147483648, 2147483648]
   \<and> min (4294967295 :: nat) (sum_list (map unat [2147483648 :: u32, 2147483648])) = 4294967295"
  by (simp add: constGetter_def)

text \<open>
  Claim C2, amended: the loop drops every addition that would wrap (the spec's second
  sentence, \<open>dropWrappingSum\<close>).  Its result never exceeds
  \<open>min(UINT32_MAX, mathematical sum)\<close>, it is the mathematical sum whenever that sum
  fits in 32 bits, and it is zero exactly when every probe reports zero.
\<close>

theorem sumQueueLength_drops_wrapping_additions:
  "unat (fst (sumQueueLength 0 gs w)) = dropWrappingSum 0 (map unat (probeValues gs w))
   \<and> unat (fst (sumQueueLength 0 gs w))
       \<le> min (2 ^ 32 - 1) (sum_list (map unat (probeValues gs w)))
   \<and> (sum_list (map unat (probeValues gs w)) < 2 ^ 32 \<longrightarrow>
        unat (fst (sumQueueLength 0 gs w)) = sum_list (map unat (probeValues gs w)))
   \<and> ((fst (sumQueueLength 0 gs w) = 0) = (\<forall>l\<in>set (probeValues gs w). l = 0))"
proof -
  let ?r = "fst (sumQueueLength 0 gs w)"
  let ?vs = "map unat (probeValues gs w)"
  have r: "unat ?r = dropWrappingSum 0 ?vs"
    using sumQueueLength_refines [of 0 gs w] by simp
  have "unat ?r < 2 ^ 32"
    using unsigned_less [of ?r, where 'a = nat] by simp
  moreover have "unat ?r \<le> sum_list ?vs"
    using r dropWrappingSum_le [of 0 ?vs] by simp
  ultimately have le: "unat ?r \<le> min (2 ^ 32 - 1) (sum_list ?vs)"
    by simp
  have ex: "sum_list ?vs < 2 ^ 32 \<longrightarrow> unat ?r = sum_list ?vs"
    using r dropWrappingSum_exact [of 0 ?vs] by simp
  show ?thesis using r le ex sumQueueLength_zero_iff [of gs w] by blast
qed

theorem sumQueueLength_drops_wrapping_additions_witness:
  "sum_list (map unat (probeValues [constGetter 3, constGetter 4] ())) < (2 ^ 32 :: nat)
   \<and> unat (fst (sumQueueLength 0 [constGetter 3, constGetter 4] ())) = 7
   \<and> fst (sumQueueLength 0 [constGetter 0, constGetter 0] ()) = 0"
  using sumQueueLength_drops_wrapping_additions [of "[constGetter 3, constGetter 4]" "()"]
    sumQueueLength_drops_wrapping_additions [of "[constGetter 0, constGetter 0]" "()"]
  by (simp add: constGetter_def)


subsection \<open>The cap on the worker set\<close>

lemma startPipeline_loop_length:
  "idx \<le> parallelism \<Longrightarrow>
   startPipeline_loop g parallelism idx cur xs = (xs', cur', idx') \<Longrightarrow>
   idx \<le> idx' \<and> idx' \<le> parallelism \<and> length xs' + unat idx = length xs + unat idx'
     \<and> cur' - idx' = cur - idx \<and> take (length xs) xs' = xs"
proof (induction g parallelism idx cur xs rule: startPipeline_loop.induct)
  case (1 g parallelism idx cur xs)
  show ?case
  proof (cases "idx < parallelism")
    case False
    then show ?thesis using "1.prems" by (simp add: startPipeline_loop.simps)
  next
    case lt: True
    show ?thesis
    proof (cases "g (unat idx)")
      case None
      then show ?thesis using "1.prems" lt by (simp add: startPipeline_loop.simps)
    next
      case (Some p)
      have le: "idx + 1 \<le> parallelism" using lt by (rule inc_le)
      have "unat idx < unat parallelism" using lt by (simp add: word_less_nat_alt)
      moreover have "unat parallelism < 2 ^ 32"
        using unsigned_less [of parallelism, where 'a = nat] by simp
      ultimately have u: "unat (idx + 1) = unat idx + 1"
        by (simp add: unat_word_ariths)
      then have lei: "idx \<le> idx + 1" by (simp add: word_le_nat_alt)
      have r: "startPipeline_loop g parallelism (idx + 1) (cur + 1)
                 (xs @ [newPipelineInstance p]) = (xs', cur', idx')"
        using "1.prems"(2) lt Some by (simp add: startPipeline_loop.simps)
      note ih = "1.IH" [OF lt Some le r]
      have "take (length xs) xs' = take (length xs) (take (length (xs @ [newPipelineInstance p])) xs')"
        by (simp add: min_def)
      also have "\<dots> = xs" using ih by simp
      finally have tk: "take (length xs) xs' = xs" .
      show ?thesis using ih u lei tk by auto
    qed
  qed
qed

lemma clamp_le: "(if b < a then b else a) \<le> (b :: u32)"
  by (cases "b < a") (simp_all add: not_less)

lemma startPipeline_cap:
  assumes "length (instances s) \<le> unat (PipelineMaxParallelism opt)"
  shows "length (instances (fst (startPipeline opt g n s))) \<le> unat (PipelineMaxParallelism opt)"
proof -
  let ?M = "PipelineMaxParallelism opt"
  let ?cur = "word_of_nat (length (instances s)) :: u32"
  have M: "unat ?M < 2 ^ 32" using unsigned_less [of ?M, where 'a = nat] by simp
  have cur: "unat ?cur = length (instances s)"
    using assms M by (simp add: unat_of_nat)
  have curle: "?cur \<le> ?M" using cur assms by (simp add: word_le_nat_alt)
  then have left: "unat (?M - ?cur) = unat ?M - length (instances s)"
    using cur by (simp add: unat_sub)
  show ?thesis
  proof (cases "stopped s = 1 \<or> ?cur = NOT 0")
    case True
    then show ?thesis using assms by (auto simp: startPipeline_def Let_def)
  next
    case False
    define par where "par = (if (if n = 0 then 1 else n) > ?M - ?cur then ?M - ?cur
                              else (if n = 0 then 1 else n))"
    have parle: "par \<le> ?M - ?cur" unfolding par_def by (rule clamp_le)
    obtain xs' cur' idx' where r:
      "startPipeline_loop g par 0 ?cur (instances s) = (xs', cur', idx')"
      by (cases "startPipeline_loop g par 0 ?cur (instances s)") auto
    have "(0::u32) \<le> par" by simp
    from startPipeline_loop_length [OF this r]
    have "idx' \<le> par" and len: "length xs' = length (instances s) + unat idx'"
      by simp_all
    then have "unat idx' \<le> unat (?M - ?cur)"
      using parle by (simp add: word_le_nat_alt)
    then have "length xs' \<le> unat ?M" using len left assms by simp
    moreover have "instances (fst (startPipeline opt g n s)) = xs'"
      using False r by (simp add: startPipeline_def Let_def par_def)
    ultimately show ?thesis by simp
  qed
qed


lemma startPipeline_shape:
  "\<exists>xs. fst (startPipeline opt g n s) = s\<lparr>instances := instances s @ xs\<rparr>"
proof (cases "stopped s = 1 \<or> (word_of_nat (length (instances s)) :: u32) = NOT 0")
  case True
  then have "fst (startPipeline opt g n s) = s\<lparr>instances := instances s @ []\<rparr>"
    by (auto simp: startPipeline_def Let_def)
  then show ?thesis by blast
next
  case False
  let ?cur = "word_of_nat (length (instances s)) :: u32"
  let ?M = "PipelineMaxParallelism opt"
  define par where "par = (if (if n = 0 then 1 else n) > ?M - ?cur then ?M - ?cur
                            else (if n = 0 then 1 else n))"
  obtain xs' cur' idx' where r:
    "startPipeline_loop g par 0 ?cur (instances s) = (xs', cur', idx')"
    by (cases "startPipeline_loop g par 0 ?cur (instances s)") auto
  have "(0::u32) \<le> par" by simp
  from startPipeline_loop_length [OF this r]
  have "take (length (instances s)) xs' = instances s" by simp
  then have "xs' = instances s @ drop (length (instances s)) xs'"
    by (metis append_take_drop_id)
  moreover have "fst (startPipeline opt g n s) = s\<lparr>instances := xs'\<rparr>"
    using False r by (simp add: startPipeline_def Let_def par_def)
  ultimately show ?thesis by metis
qed


lemma Start_cap:
  assumes "length (instances s) \<le> unat (PipelineMaxParallelism opt)"
  shows "length (instances (Start opt c g s)) \<le> unat (PipelineMaxParallelism opt)"
proof (cases "started s \<noteq> 0")
  case True
  then show ?thesis using assms by (simp add: Start_def)
next
  case False
  let ?s1 = "s\<lparr>started := 1, ctx := Some c\<rparr>"
  have "length (instances ?s1) \<le> unat (PipelineMaxParallelism opt)" using assms by simp
  from startPipeline_cap [OF this, of g "PipelineInitParallelism opt"]
  show ?thesis using False by (auto simp: Start_def split: prod.splits)
qed

lemma trigger_instances:
  "trigger name g s w = Returns (s', w') \<or> trigger name g s w = Blocks (s', w') \<Longrightarrow>
   instances s' = instances s"
  by (auto simp: trigger_def split: option.splits prod.splits if_splits)

lemma debounce_instances: "debounce now info s = Some s' \<Longrightarrow> instances s' = instances s"
  by (auto simp: debounce_def Let_def split: if_splits)

lemma launchEvent_cap:
  assumes "length (instances s) \<le> unat (PipelineMaxParallelism opt)"
  shows "length (instances (fst (launchEvent opt conv g now now' info s)))
           \<le> unat (PipelineMaxParallelism opt)"
proof (cases "debounce now info s")
  case None
  then show ?thesis using assms by (simp add: launchEvent_def)
next
  case (Some s1)
  then have "length (instances s1) \<le> unat (PipelineMaxParallelism opt)"
    using assms debounce_instances [OF Some] by simp
  from startPipeline_cap [OF this, of g "requestedCount conv now (shrinkTime s1) (queueLength info)"]
  show ?thesis using Some by (auto simp: launchEvent_def Let_def split: prod.splits)
qed

lemma launch_cap:
  assumes "length (instances s) \<le> unat (PipelineMaxParallelism opt)"
    and "launch opt conv g now now' s = Returns (s', q) \<or> launch opt conv g now now' s = Blocks (s', q)"
  shows "length (instances s') \<le> unat (PipelineMaxParallelism opt)"
proof (cases "launchChan s")
  case Nil
  then show ?thesis using assms by (auto simp: launch_def split: if_splits)
next
  case (Cons info rest)
  have "length (instances (s\<lparr>launchChan := rest\<rparr>)) \<le> unat (PipelineMaxParallelism opt)"
    using assms(1) by simp
  from launchEvent_cap [OF this, of conv g now now' info]
  show ?thesis using assms(2) Cons by (auto simp: launch_def)
qed

lemma shrinkLocked_length:
  "shrinkLocked opt now s = Returns (s', popped) \<or> shrinkLocked opt now s = Blocks (s', popped) \<Longrightarrow>
   length (instances s') \<le> length (instances s)"
  by (auto simp: shrinkLocked_def Let_def split: if_splits)

lemma shrinkTick_length:
  "shrinkTick opt order now s w = Returns (s', popped, w') \<or>
   shrinkTick opt order now s w = Blocks (s', popped, w') \<Longrightarrow>
   length (instances s') \<le> length (instances s)"
  by (auto simp: shrinkTick_def Let_def split: if_splits prod.splits outcome.splits
      dest: shrinkLocked_length [OF disjI1] shrinkLocked_length [OF disjI2])

lemma spawnReturn_instances:
  "spawnReturn s = Returns s' \<or> spawnReturn s = Blocks s' \<Longrightarrow> instances s' = instances s"
  by (auto simp: spawnReturn_def split: if_splits)

lemma shrinkReturn_instances:
  "shrinkReturn s = Returns s' \<or> shrinkReturn s = Blocks s' \<Longrightarrow> instances s' = instances s"
  by (auto simp: shrinkReturn_def split: if_splits)

lemma Stop_instances:
  "Stop s = Returns s' \<or> Stop s = Blocks s' \<Longrightarrow> instances s' = instances s"
  by (auto simp: Stop_def awaitSpawnDone_def Let_def split: if_splits outcome.splits
      dest!: spawnReturn_instances [OF disjI1] spawnReturn_instances [OF disjI2])

lemma spawnSend_instances:
  "spawnSend e s = Returns s' \<or> spawnSend e s = Blocks s' \<Longrightarrow> instances s' = instances s"
  by (auto simp: spawnSend_def split: if_splits)

lemma withEnv_cases:
  "withEnv w r = Returns cfg' \<or> withEnv w r = Blocks cfg' \<Longrightarrow>
   (r = Returns (fst cfg') \<or> r = Blocks (fst cfg')) \<and> snd cfg' = w"
  by (cases r) auto

lemma act_cap:
  assumes "length (instances (fst cfg)) \<le> unat (PipelineMaxParallelism opt)"
    and "act opt conv a cfg = Returns cfg' \<or> act opt conv a cfg = Blocks cfg'"
  shows "length (instances (fst cfg')) \<le> unat (PipelineMaxParallelism opt)"
proof -
  obtain s w where cfg: "cfg = (s, w)" by (cases cfg)
  obtain s' w' where cfg': "cfg' = (s', w')" by (cases cfg')
  have b: "length (instances s) \<le> unat (PipelineMaxParallelism opt)" using assms(1) cfg by simp
  show ?thesis
  proof (cases a)
    case (ActStart c g)
    then show ?thesis using assms(2) cfg Start_cap [OF b] by (auto simp: act_def)
  next
    case (ActStartPipeline g n)
    then show ?thesis using assms(2) cfg startPipeline_cap [OF b] by (auto simp: act_def)
  next
    case (ActTrigger name g)
    then have "trigger name g s w = Returns (s', w') \<or> trigger name g s w = Blocks (s', w')"
      using assms(2) cfg cfg' by (simp add: act_def)
    from trigger_instances [OF this] show ?thesis using b cfg' by simp
  next
    case (ActLaunch g now now')
    then obtain q where "launch opt conv g now now' s = Returns (s', q)
        \<or> launch opt conv g now now' s = Blocks (s', q)"
      using assms(2) cfg cfg' by (auto simp: act_def split: outcome.splits)
    from launch_cap [OF b this] show ?thesis using cfg' by simp
  next
    case (ActSpawn order)
    obtain ev w1 where t: "spawnTick opt order s w = (ev, w1)" by (cases "spawnTick opt order s w")
    show ?thesis
    proof (cases ev)
      case None
      then show ?thesis using assms(2) cfg cfg' ActSpawn t b by (auto simp: act_def)
    next
      case (Some e)
      then have "withEnv w1 (spawnSend e s) = Returns cfg' \<or> withEnv w1 (spawnSend e s) = Blocks cfg'"
        using assms(2) cfg ActSpawn t by (simp add: act_def)
      from withEnv_cases [OF this] spawnSend_instances [of e s s']
      show ?thesis using b cfg' by auto
    qed
  next
    case ActSpawnReturn
    then have "withEnv w (spawnReturn s) = Returns cfg' \<or> withEnv w (spawnReturn s) = Blocks cfg'"
      using assms(2) cfg by (simp add: act_def)
    from withEnv_cases [OF this] spawnReturn_instances [of s s']
    show ?thesis using b cfg' by auto
  next
    case (ActShrink order now)
    then obtain popped where "shrinkTick opt order now s w = Returns (s', popped, w')
        \<or> shrinkTick opt order now s w = Blocks (s', popped, w')"
      using assms(2) cfg cfg' by (auto simp: act_def split: outcome.splits)
    from shrinkTick_length [OF this] show ?thesis using b cfg' by simp
  next
    case ActShrinkReturn
    then have "withEnv w (shrinkReturn s) = Returns cfg' \<or> withEnv w (shrinkReturn s) = Blocks cfg'"
      using assms(2) cfg by (simp add: act_def)
    from withEnv_cases [OF this] shrinkReturn_instances [of s s']
    show ?thesis using b cfg' by auto
  next
    case ActStop
    then have "withEnv w (Stop s) = Returns cfg' \<or> withEnv w (Stop s) = Blocks cfg'"
      using assms(2) cfg by (simp add: act_def)
    from withEnv_cases [OF this] Stop_instances [of s s']
    show ?thesis using b cfg' by auto
  next
    case ActStopPipeline
    then show ?thesis using assms(2) cfg cfg' by (auto simp: act_def StopPipeline_def)
  qed
qed

lemma statesOf_cap:
  "length (instances (fst cfg)) \<le> unat (PipelineMaxParallelism opt) \<Longrightarrow>
   \<forall>c\<in>set (statesOf opt conv acts cfg).
     length (instances (fst c)) \<le> unat (PipelineMaxParallelism opt)"
proof (induction acts arbitrary: cfg)
  case Nil
  then show ?case by simp
next
  case (Cons a acts)
  show ?case
  proof (cases "act opt conv a cfg")
    case (Returns cfg')
    then have "length (instances (fst cfg')) \<le> unat (PipelineMaxParallelism opt)"
      using act_cap [OF Cons.prems, of conv a cfg'] by simp
    from Cons.IH [OF this] show ?thesis using Returns Cons.prems by simp
  next
    case (Blocks cfg')
    then have "length (instances (fst cfg')) \<le> unat (PipelineMaxParallelism opt)"
      using act_cap [OF Cons.prems, of conv a cfg'] by simp
    from Cons.IH [OF this] show ?thesis using Blocks Cons.prems by simp
  next
    case Panics
    then show ?thesis using Cons.prems by simp
  qed
qed


lemma clamp_le2: "(if b < a then b else a) \<le> (a :: u32)"
  by (cases "b < a") simp_all

lemma startPipeline_counts:
  assumes b: "length (instances s) \<le> unat (PipelineMaxParallelism opt)"
    and r: "startPipeline opt g n s = (s', cur', delta)"
  shows "length (instances s') = length (instances s) + unat delta
     \<and> unat cur' = length (instances s')
     \<and> length (instances s') \<le> unat (PipelineMaxParallelism opt)
     \<and> unat delta \<le> unat (if n = 0 then 1 else n)"
proof -
  let ?M = "PipelineMaxParallelism opt"
  let ?cur = "word_of_nat (length (instances s)) :: u32"
  have M: "unat ?M < 2 ^ 32" using unsigned_less [of ?M, where 'a = nat] by simp
  have cur: "unat ?cur = length (instances s)"
    using b M by (simp add: unat_of_nat)
  have curle: "?cur \<le> ?M" using cur b by (simp add: word_le_nat_alt)
  then have left: "unat (?M - ?cur) = unat ?M - length (instances s)"
    using cur by (simp add: unat_sub)
  show ?thesis
  proof (cases "stopped s = 1 \<or> ?cur = NOT 0")
    case True
    then show ?thesis using b r cur by (auto simp: startPipeline_def Let_def)
  next
    case False
    define par where "par = (if (if n = 0 then 1 else n) > ?M - ?cur then ?M - ?cur
                              else (if n = 0 then 1 else n))"
    have parle: "par \<le> ?M - ?cur" unfolding par_def by (rule clamp_le)
    have parle2: "par \<le> (if n = 0 then 1 else n)" unfolding par_def by (rule clamp_le2)
    obtain xs' c' idx' where l:
      "startPipeline_loop g par 0 ?cur (instances s) = (xs', c', idx')"
      by (cases "startPipeline_loop g par 0 ?cur (instances s)") auto
    have "(0::u32) \<le> par" by simp
    from startPipeline_loop_length [OF this l]
    have i: "idx' \<le> par" and len: "length xs' = length (instances s) + unat idx'"
      and c: "c' - idx' = ?cur"
      by simp_all
    have res: "s' = s\<lparr>instances := xs'\<rparr>" "cur' = c'" "delta = idx'"
      using False r l by (simp_all add: startPipeline_def Let_def par_def)
    have il: "unat idx' \<le> unat ?M - length (instances s)"
      using i parle left by (simp add: word_le_nat_alt)
    have "c' = ?cur + idx'" using c by (simp add: diff_eq_eq)
    then have "unat c' = (length (instances s) + unat idx') mod 2 ^ 32"
      using cur by (simp add: unat_word_ariths)
    then have uc: "unat c' = length (instances s) + unat idx'"
      using il b M by simp
    have "idx' \<le> (if n = 0 then 1 else n)" using i parle2 by (rule order_trans)
    then have "unat idx' \<le> unat (if n = 0 then 1 else n)" by (simp only: word_le_nat_alt)
    then show ?thesis using res len uc il b by simp
  qed
qed


lemma statesOf_nonempty: "statesOf opt outOfRange acts cfg \<noteq> []"
  by (cases acts) simp_all

text \<open>
  Claim C1: the worker set never exceeds \<open>PipelineMaxParallelism\<close>.  Whatever the
  moves of a run from a new scheduler are (calls of \<open>startPipeline\<close> from
  \<open>Start\<close>, from the launcher or from anywhere else, with any arguments and any
  results of \<open>GetInstance\<close>, mixed with triggers, shrinks, \<open>Stop\<close> and
  \<open>StopPipeline\<close>), every state of the run holds at most
  \<open>PipelineMaxParallelism\<close> handles; and a single call of \<open>startPipeline\<close> on
  a set within the cap adds exactly the number it returns and stays within the cap.
\<close>

theorem cap_invariant:
  "(\<forall>c\<in>set (statesOf opt outOfRange acts (newDynamicPipelineScheduler, w)).
      length (instances (fst c)) \<le> unat (PipelineMaxParallelism opt))
   \<and> (length (instances s) \<le> unat (PipelineMaxParallelism opt) \<longrightarrow>
        length (instances (fst (startPipeline opt g n s))) \<le> unat (PipelineMaxParallelism opt)
        \<and> length (instances (fst (startPipeline opt g n s)))
            = length (instances s) + unat (snd (snd (startPipeline opt g n s))))"
proof -
  have "length (instances (fst (newDynamicPipelineScheduler :: ('a, 'b, 'c) dynamicPipelineScheduler, w)))
          \<le> unat (PipelineMaxParallelism opt)"
    by (simp add: newDynamicPipelineScheduler_def)
  from statesOf_cap [OF this]
  have runs: "\<forall>c\<in>set (statesOf opt outOfRange acts (newDynamicPipelineScheduler :: ('a, 'b, 'c) dynamicPipelineScheduler, w)).
      length (instances (fst c)) \<le> unat (PipelineMaxParallelism opt)" .
  have call: "length (instances s) \<le> unat (PipelineMaxParallelism opt) \<longrightarrow>
        length (instances (fst (startPipeline opt g n s))) \<le> unat (PipelineMaxParallelism opt)
        \<and> length (instances (fst (startPipeline opt g n s)))
            = length (instances s) + unat (snd (snd (startPipeline opt g n s)))"
  proof
    assume b: "length (instances s) \<le> unat (PipelineMaxParallelism opt)"
    obtain s' cur' delta where r: "startPipeline opt g n s = (s', cur', delta)"
      by (cases "startPipeline opt g n s") auto
    from startPipeline_counts [OF b r] show
      "length (instances (fst (startPipeline opt g n s))) \<le> unat (PipelineMaxParallelism opt)
        \<and> length (instances (fst (startPipeline opt g n s)))
            = length (instances s) + unat (snd (snd (startPipeline opt g n s)))"
      using r by simp
  qed
  show ?thesis using runs call by blast
qed

theorem cap_invariant_witness:
  "length (instances (fst (last (statesOf exampleOptions wrapOutOfRange exampleRun
      (newDynamicPipelineScheduler, ())))))
     \<le> unat (PipelineMaxParallelism exampleOptions)
   \<and> length (instances (fst (last (statesOf exampleOptions wrapOutOfRange exampleRun
      (newDynamicPipelineScheduler, ()))))) = 3"
proof -
  let ?run = "statesOf exampleOptions wrapOutOfRange exampleRun
      (newDynamicPipelineScheduler :: (nat, unit, unit) dynamicPipelineScheduler, ())"
  have "last ?run \<in> set ?run"
    using statesOf_nonempty by (rule last_in_set)
  then have "length (instances (fst (last ?run))) \<le> unat (PipelineMaxParallelism exampleOptions)"
    using cap_invariant [of exampleOptions wrapOutOfRange exampleRun "()"] by blast
  moreover have "length (instances (fst (last ?run))) = 3"
    by code_simp
  ultimately show ?thesis by simp
qed


subsection \<open>The lifecycle: Start and Stop\<close>








lemma Stop_after_Start_returns:
  assumes "started s = 0" "stopped s = 0" "\<not> spawnStop s" "\<not> shrinkStop s" "\<not> spawnDone s"
    "\<not> launchChanClosed s"
  shows "\<exists>s'. Stop (Start opt c g s) = Returns s'"
proof -
  let ?s1 = "s\<lparr>started := 1, ctx := Some c\<rparr>"
  obtain xs where x: "fst (startPipeline opt g (PipelineInitParallelism opt) ?s1) = ?s1\<lparr>instances := instances ?s1 @ xs\<rparr>"
    using startPipeline_shape by blast
  have "Start opt c g s = ?s1\<lparr>instances := instances ?s1 @ xs, goroutines := goroutines s @ [LaunchTask, SpawnTask, ShrinkTask]\<rparr>"
    using assms(1) x by (auto simp: Start_def split: prod.splits)
  then show ?thesis using assms
    by (simp add: Stop_def awaitSpawnDone_def spawnReturn_def Let_def)
qed


text \<open>
  The spawner that a \<open>Start\<close> after \<open>Stop\<close> launches finds \<open>spawnStop\<close>
  closed, leaves its loop at once, and its deferred \<open>close(scheduler.spawnDone)\<close>
  closes a channel that the first spawner has closed.
\<close>

lemma second_spawner_panics:
  "spawnReturn (Start exampleOptions () alwaysInstance stoppedExample) = Panics"
  by (simp add: stoppedExample_def Start_def startPipeline_def spawnReturn_def Let_def)





subsection \<open>The teardown of a handle\<close>


























subsection \<open>The launcher: the fast scale-up\<close>

text \<open>
  The \<open>float64\<close> product rounds, but never across a whole number: the
  \<open>math.Ceil\<close> of the rounded product is the ceiling of \<open>6 * queueLength / 5\<close>
  for every \<open>uint32\<close>.
\<close>

lemma bitLength_le: "n < 2 ^ k \<Longrightarrow> bitLength n \<le> k"
proof (induction k arbitrary: n)
  case 0
  then show ?case by (simp add: bitLength.simps)
next
  case (Suc k)
  show ?case
  proof (cases "n = 0")
    case True
    then show ?thesis by (simp add: bitLength.simps)
  next
    case False
    have "n div 2 < 2 ^ k" using Suc.prems by simp
    then have "bitLength (n div 2) \<le> k" by (rule Suc.IH)
    then show ?thesis using False by (simp add: bitLength.simps [of n])
  qed
qed

lemma roundToFloat64_lower: "n < roundToFloat64 n + 2 ^ (bitLength n - 53)"
proof (cases "bitLength n - 53 = 0")
  case True
  then show ?thesis by (simp add: roundToFloat64_def)
next
  case False
  define e where "e = bitLength n - 53"
  have "n = (n div 2 ^ e) * 2 ^ e + n mod 2 ^ e" by (rule div_mult_mod_eq [symmetric])
  moreover have "n mod 2 ^ e < 2 ^ e" by simp
  ultimately have "n < (n div 2 ^ e) * 2 ^ e + 2 ^ e" by linarith
  moreover have "(n div 2 ^ e) * 2 ^ e \<le> roundToFloat64 n"
    using False by (simp add: roundToFloat64_def Let_def e_def)
  ultimately show ?thesis by (simp add: e_def)
qed

lemma roundToFloat64_upper:
  assumes d: "2 ^ (bitLength n - 53) dvd B" and le: "n \<le> B"
  shows "roundToFloat64 n \<le> B"
proof (cases "bitLength n - 53 = 0")
  case True
  then show ?thesis using le by (simp add: roundToFloat64_def)
next
  case False
  define e where "e = bitLength n - 53"
  obtain K where B: "B = K * 2 ^ e" using d by (auto simp: e_def dvd_def mult.commute)
  have "n div 2 ^ e \<le> (K * 2 ^ e) div 2 ^ e" using le B by (intro div_le_mono) simp
  then have dv: "n div 2 ^ e \<le> K" by simp
  show ?thesis
  proof (cases "n mod 2 ^ e = 0")
    case True
    then have "roundToFloat64 n = (n div 2 ^ e) * 2 ^ e"
      using False by (simp add: roundToFloat64_def Let_def e_def)
    then show ?thesis using dv B by simp
  next
    case nz: False
    have "n div 2 ^ e \<noteq> K"
    proof
      assume "n div 2 ^ e = K"
      then have "n = B + n mod 2 ^ e" using B by (metis div_mult_mod_eq)
      then show False using nz le by simp
    qed
    then have "n div 2 ^ e + 1 \<le> K" using dv by simp
    then have "(n div 2 ^ e + 1) * 2 ^ e \<le> K * 2 ^ e" by (rule mult_le_mono1)
    then have "(n div 2 ^ e + 1) * 2 ^ e \<le> B" using B by simp
    moreover have "roundToFloat64 n \<le> (n div 2 ^ e + 1) * 2 ^ e"
      using False by (simp add: roundToFloat64_def Let_def e_def)
    ultimately show ?thesis by simp
  qed
qed

lemma ceilScaled_exact: "ceilScaled q = (6 * unat q + 4) div 5"
proof -
  define n where "n = unat q"
  define N where "N = n * 5404319552844595"
  define k where "k = (6 * n + 4) div 5"
  define R where "R = roundToFloat64 N"
  define e where "e = bitLength N - 53"
  have n: "n < 4294967296" using unsigned_less [of q, where 'a = nat] by (simp add: n_def)
  have k1: "6 * n \<le> 5 * k" and k2: "5 * k \<le> 6 * n + 4" unfolding k_def by linarith+
  have "N < 2 ^ 85" using n by (simp add: N_def)
  then have "bitLength N \<le> 85" by (rule bitLength_le)
  then have e: "e \<le> 32" by (simp add: e_def)
  then have pe: "(2::nat) ^ e \<le> 4294967296"
    using power_increasing [of e 32 "2::nat"] by simp
  have "e \<le> 52" using e by simp
  then have "(2::nat) ^ e dvd 2 ^ 52" by (rule le_imp_power_dvd)
  moreover have "(2::nat) ^ 52 = 4503599627370496" by simp
  ultimately have "(2::nat) ^ e dvd 4503599627370496" by simp
  then have dv: "(2::nat) ^ e dvd k * 4503599627370496" by (rule dvd_mult)
  have up: "N \<le> k * 4503599627370496" using k1 by (simp add: N_def)
  have lo: "k * 4503599627370496 + 4294967296 \<le> N + 4503599627370496"
    using k2 n by (simp add: N_def)
  have "R \<le> k * 4503599627370496"
    unfolding R_def using dv up by (intro roundToFloat64_upper) (simp_all add: e_def)
  moreover have "N < R + 2 ^ e"
    unfolding R_def e_def by (rule roundToFloat64_lower)
  ultimately have a: "k * 4503599627370496 \<le> R + 4503599627370495"
    and b: "R + 4503599627370495 < Suc k * 4503599627370496"
    using lo pe by simp_all
  have "(R + 4503599627370495) div 4503599627370496 = k"
    using a b by (intro div_nat_eqI) (simp_all add: mult.commute)
  then show ?thesis
    by (simp add: ceilScaled_def SCHEDULER_DYNAMIC_FAST_SCALE_RATIO_def R_def N_def n_def k_def)
qed


lemma fastScale_clamped:
  fixes q :: u32
  defines "c \<equiv> (6 * unat q + 4) div 5"
  shows "unat (let f = fastScale outOfRange q
               in if f > SCHEDULER_DYNAMIC_SPAWN_MAX_IN_EACH
                  then SCHEDULER_DYNAMIC_SPAWN_MAX_IN_EACH else f)
         = min 500 (max 5 (max c (unat q)))"
proof (cases "c < 2 ^ 32")
  case True
  then have l0: "unat (uint32_of_float outOfRange (ceilScaled q)) = c"
    by (simp add: uint32_of_float_def ceilScaled_exact c_def unat_of_nat)
  define l0 where "l0 = uint32_of_float outOfRange (ceilScaled q)"
  define l1 where "l1 = (if l0 < 5 then 5 else l0)"
  define f where "f = (if l1 > q then l1 else q)"
  have u0: "unat l0 = c" using l0 by (simp add: l0_def)
  have u1: "unat l1 = max 5 c" using u0 by (simp add: l1_def word_less_nat_alt)
  have uf: "unat f = max (max 5 c) (unat q)" using u1 by (auto simp: f_def word_less_nat_alt)
  have ff: "fastScale outOfRange q = f"
    by (simp add: fastScale_def Let_def f_def l1_def l0_def
        SCHEDULER_DYNAMIC_FAST_SCALE_MIN_COUNT_def)
  have "unat (let f = fastScale outOfRange q
               in if f > SCHEDULER_DYNAMIC_SPAWN_MAX_IN_EACH
                  then SCHEDULER_DYNAMIC_SPAWN_MAX_IN_EACH else f)
        = unat (if f > 500 then 500 else f)"
    by (simp only: Let_def SCHEDULER_DYNAMIC_SPAWN_MAX_IN_EACH_def ff)
  also have "\<dots> = min 500 (unat f)"
    by (simp add: word_less_nat_alt)
  also have "\<dots> = min 500 (max 5 (max c (unat q)))"
    by (simp only: uf max.assoc)
  finally show ?thesis .
next
  case False
  then have big: "500 < unat q" by (simp add: c_def)
  define f where "f = fastScale outOfRange q"
  have "q \<le> f" by (auto simp: f_def fastScale_def Let_def)
  then have "500 < unat f" using big by (simp add: word_le_nat_alt)
  then have "(500 :: u32) < f" by (simp add: word_less_nat_alt)
  then have "unat (if f > 500 then 500 else f) = 500" by simp
  moreover have "unat (let f = fastScale outOfRange q
               in if f > SCHEDULER_DYNAMIC_SPAWN_MAX_IN_EACH
                  then SCHEDULER_DYNAMIC_SPAWN_MAX_IN_EACH else f)
        = unat (if f > 500 then 500 else f)"
    by (simp only: Let_def SCHEDULER_DYNAMIC_SPAWN_MAX_IN_EACH_def f_def)
  moreover have "min 500 (max 5 (max c (unat q))) = 500" using big by simp
  ultimately show ?thesis by simp
qed

lemma debounce_shrinkTime: "debounce now info s = Some s1 \<Longrightarrow> shrinkTime s1 = shrinkTime s"
  by (auto simp: debounce_def Let_def split: if_splits)

lemma launchEvent_requested:
  assumes "launchEvent opt outOfRange g now now' info s = (s', Some r)"
  shows "r = requestedCount outOfRange now (shrinkTime s) (queueLength info)"
proof (cases "debounce now info s")
  case None
  then show ?thesis using assms by (simp add: launchEvent_def)
next
  case (Some s1)
  then show ?thesis using assms debounce_shrinkTime [OF Some]
    by (auto simp: launchEvent_def Let_def split: prod.splits)
qed

lemma launchEvent_calls:
  "debounce now info s = Some s1 \<Longrightarrow>
   snd (launchEvent opt outOfRange g now now' info s)
     = Some (requestedCount outOfRange now (shrinkTime s1) (queueLength info))"
  by (simp add: launchEvent_def Let_def split: prod.splits)

text \<open>
  Claim C5: a launcher event that is processed less than
  \<open>SCHEDULER_DYNAMIC_FAST_SCALE_INTERVAL_MS\<close> after \<open>shrinkTime\<close> and reaches
  \<open>startPipeline\<close> requests \<open>min(500, max(5, ceil(queueLength * 1.2), queueLength))\<close>
  workers, which is at least \<open>max(5, queueLength)\<close> clamped by \<open>500\<close>.  This
  holds whatever \<open>uint32(f)\<close> yields for an \<open>f\<close> that does not fit.
\<close>

theorem fast_scale_request:
  assumes "elapsedMsLess (Sub now (shrinkTime s)) SCHEDULER_DYNAMIC_FAST_SCALE_INTERVAL_MS"
    and "launchEvent opt outOfRange g now now' info s = (s', Some r)"
  shows "unat r = min 500 (max 5 (max ((6 * unat (queueLength info) + 4) div 5)
                                      (unat (queueLength info))))
     \<and> min 500 (max 5 (unat (queueLength info))) \<le> unat r"
proof -
  have "r = requestedCount outOfRange now (shrinkTime s) (queueLength info)"
    using assms(2) by (rule launchEvent_requested)
  then have "unat r = min 500 (max 5 (max ((6 * unat (queueLength info) + 4) div 5)
                                      (unat (queueLength info))))"
    using assms(1) fastScale_clamped [of outOfRange "queueLength info"]
    by (simp add: requestedCount_def Let_def)
  then show ?thesis by simp
qed


theorem fast_scale_request_witness:
  "elapsedMsLess (Sub 5500000000 (shrinkTime shrunkExample))
      SCHEDULER_DYNAMIC_FAST_SCALE_INTERVAL_MS
   \<and> snd (launchEvent exampleOptions wrapOutOfRange alwaysInstance 5500000000 5500000001
            (sweepEvent 3) shrunkExample) = Some 5
   \<and> unat (5 :: u32) = min 500 (max 5 (max ((6 * unat (3 :: u32) + 4) div 5) (unat (3 :: u32))))"
proof -
  let ?r = "launchEvent exampleOptions wrapOutOfRange alwaysInstance 5500000000 5500000001
            (sweepEvent 3) shrunkExample"
  have h1: "elapsedMsLess (Sub 5500000000 (shrinkTime shrunkExample))
      SCHEDULER_DYNAMIC_FAST_SCALE_INTERVAL_MS"
    by (simp add: elapsedMsLess_def Sub_def shrunkExample_def
        SCHEDULER_DYNAMIC_FAST_SCALE_INTERVAL_MS_def)
  have d: "debounce 5500000000 (sweepEvent 3) shrunkExample
      = Some (shrunkExample\<lparr>sourceLastScheduleTimes :=
           (\<lambda>name. map_option (\<lambda>t. 5500000000) (sourceLastScheduleTimes shrunkExample name))\<rparr>)"
    by (simp add: debounce_def sweepEvent_def)
  have h2: "snd ?r = Some 5"
    using h1 launchEvent_calls [OF d, of exampleOptions wrapOutOfRange alwaysInstance 5500000001]
    by (simp add: requestedCount_def fastScale_def uint32_of_float_def ceilScaled_exact
        sweepEvent_def SCHEDULER_DYNAMIC_FAST_SCALE_MIN_COUNT_def
        SCHEDULER_DYNAMIC_SPAWN_MAX_IN_EACH_def)
  have "?r = (fst ?r, Some 5)" using h2 by (metis prod.collapse)
  from fast_scale_request [OF h1 this]
  show ?thesis using h1 h2 by (simp add: sweepEvent_def)
qed



subsection \<open>The launcher: debounce and classification\<close>

lemma launchEvent_books:
  assumes "debounce now info s = Some s1"
  shows "getters (fst (launchEvent opt outOfRange g now now' info s)) = getters s1
     \<and> sourceLastScheduleTimes (fst (launchEvent opt outOfRange g now now' info s))
         = sourceLastScheduleTimes s1"
proof -
  let ?q = "requestedCount outOfRange now (shrinkTime s1) (queueLength info)"
  obtain xs where x: "fst (startPipeline opt g ?q s1) = s1\<lparr>instances := instances s1 @ xs\<rparr>"
    using startPipeline_shape by blast
  obtain s2 par delta where r: "startPipeline opt g ?q s1 = (s2, par, delta)"
    by (cases "startPipeline opt g ?q s1") auto
  have "s2 = s1\<lparr>instances := instances s1 @ xs\<rparr>" using x r by simp
  then show ?thesis using assms r by (simp add: launchEvent_def Let_def)
qed

text \<open>
  Claim C6: a trigger event (non-empty source name, non-nil probe) that the launcher
  processes less than \<open>SCHEDULER_DYNAMIC_SPAWN_MIN_INTERVAL_MS\<close> after the schedule
  time recorded for its source is skipped entirely: the scheduler is unchanged (no
  update of \<open>sourceLastScheduleTimes\<close>, no registration in \<open>getters\<close>) and
  \<open>startPipeline\<close> is not called.  Otherwise \<open>startPipeline\<close> is called, the
  schedule time of the source is \<open>now\<close> and its probe is registered.
\<close>

theorem per_source_debounce:
  assumes "getterName info \<noteq> []" and "getter info = Some p"
  shows "(elapsedMsLess (Sub now (lastScheduleAt s (getterName info)))
            SCHEDULER_DYNAMIC_SPAWN_MIN_INTERVAL_MS \<longrightarrow>
          launchEvent opt outOfRange g now now' info s = (s, None))
     \<and> (\<not> elapsedMsLess (Sub now (lastScheduleAt s (getterName info)))
            SCHEDULER_DYNAMIC_SPAWN_MIN_INTERVAL_MS \<longrightarrow>
          snd (launchEvent opt outOfRange g now now' info s)
            = Some (requestedCount outOfRange now (shrinkTime s) (queueLength info))
          \<and> sourceLastScheduleTimes (fst (launchEvent opt outOfRange g now now' info s))
              (getterName info) = Some now
          \<and> getters (fst (launchEvent opt outOfRange g now now' info s))
              (getterName info) = Some p)"
proof (cases "elapsedMsLess (Sub now (lastScheduleAt s (getterName info)))
            SCHEDULER_DYNAMIC_SPAWN_MIN_INTERVAL_MS")
  case True
  then have "debounce now info s = None" using assms by (simp add: debounce_def)
  then show ?thesis using True by (simp add: launchEvent_def)
next
  case False
  let ?s1 = "s\<lparr>getters := (getters s)(getterName info := getter info),
               sourceLastScheduleTimes :=
                 (sourceLastScheduleTimes s)(getterName info \<mapsto> now)\<rparr>"
  have d: "debounce now info s = Some ?s1" using False assms by (simp add: debounce_def)
  from launchEvent_calls [OF d] launchEvent_books [OF d]
  show ?thesis using False assms by simp
qed

theorem per_source_debounce_witness:
  "elapsedMsLess (Sub 1200000000 (lastScheduleAt ledgerExample ''a''))
      SCHEDULER_DYNAMIC_SPAWN_MIN_INTERVAL_MS
   \<and> launchEvent exampleOptions wrapOutOfRange alwaysInstance 1200000000 1200000001
        (triggerEvent ''a'' 4) ledgerExample = (ledgerExample, None)
   \<and> \<not> elapsedMsLess (Sub 1500000000 (lastScheduleAt ledgerExample ''a''))
      SCHEDULER_DYNAMIC_SPAWN_MIN_INTERVAL_MS
   \<and> snd (launchEvent exampleOptions wrapOutOfRange alwaysInstance 1500000000 1500000001
        (triggerEvent ''a'' 4) ledgerExample) = Some 4
   \<and> sourceLastScheduleTimes (fst (launchEvent exampleOptions wrapOutOfRange alwaysInstance
        1500000000 1500000001 (triggerEvent ''a'' 4) ledgerExample)) ''a'' = Some 1500000000
   \<and> \<not> elapsedMsLess (Sub 1200000000 (lastScheduleAt ledgerExample ''b''))
      SCHEDULER_DYNAMIC_SPAWN_MIN_INTERVAL_MS
   \<and> getters (fst (launchEvent exampleOptions wrapOutOfRange alwaysInstance
        1200000000 1200000001 (triggerEvent ''b'' 4) ledgerExample)) ''b'' = Some (constGetter 4)"
proof -
  have n: "getterName (triggerEvent ''a'' 4) \<noteq> []" "getterName (triggerEvent ''b'' 4) \<noteq> []"
    and g: "getter (triggerEvent ''a'' 4) = Some (constGetter 4)"
      "getter (triggerEvent ''b'' 4) = Some (constGetter 4)"
    by (simp_all add: triggerEvent_def)
  have t: "elapsedMsLess (Sub 1200000000 (lastScheduleAt ledgerExample ''a''))
      SCHEDULER_DYNAMIC_SPAWN_MIN_INTERVAL_MS"
    "\<not> elapsedMsLess (Sub 1500000000 (lastScheduleAt ledgerExample ''a''))
      SCHEDULER_DYNAMIC_SPAWN_MIN_INTERVAL_MS"
    "\<not> elapsedMsLess (Sub 1200000000 (lastScheduleAt ledgerExample ''b''))
      SCHEDULER_DYNAMIC_SPAWN_MIN_INTERVAL_MS"
    by (simp_all add: elapsedMsLess_def Sub_def lastScheduleAt_def ledgerExample_def
        newDynamicPipelineScheduler_def zeroTime_def SCHEDULER_DYNAMIC_SPAWN_MIN_INTERVAL_MS_def)
  have q: "requestedCount wrapOutOfRange 1500000000 (shrinkTime ledgerExample) 4 = 4"
    by (simp add: requestedCount_def elapsedMsLess_def Sub_def ledgerExample_def
        newDynamicPipelineScheduler_def zeroTime_def SCHEDULER_DYNAMIC_FAST_SCALE_INTERVAL_MS_def
        SCHEDULER_DYNAMIC_SPAWN_MAX_IN_EACH_def)
  show ?thesis
    using t q
      per_source_debounce [OF n(1) g(1), of 1200000000 ledgerExample exampleOptions
        wrapOutOfRange alwaysInstance 1200000001]
      per_source_debounce [OF n(1) g(1), of 1500000000 ledgerExample exampleOptions
        wrapOutOfRange alwaysInstance 1500000001]
      per_source_debounce [OF n(2) g(2), of 1200000000 ledgerExample exampleOptions
        wrapOutOfRange alwaysInstance 1200000001]
    by (simp add: triggerEvent_def)
qed


text \<open>
  Claim C9: an event with an empty source name or a nil probe is a sweep: whatever the
  times are, \<open>startPipeline\<close> is called, \<open>getters\<close> is unchanged and every
  existing entry of \<open>sourceLastScheduleTimes\<close> becomes \<open>now\<close>.  The trigger hook
  called with an empty source name posts such an event.  (The events with a name and a
  probe are the ones of claim C6.)
\<close>

theorem sweep_classification:
  "(getterName info = [] \<or> getter info = None \<longrightarrow>
      snd (launchEvent opt outOfRange g now now' info s)
        = Some (requestedCount outOfRange now (shrinkTime s) (queueLength info))
      \<and> getters (fst (launchEvent opt outOfRange g now now' info s)) = getters s
      \<and> sourceLastScheduleTimes (fst (launchEvent opt outOfRange g now now' info s))
          = (\<lambda>name. map_option (\<lambda>t. now) (sourceLastScheduleTimes s name)))
   \<and> (fst (p w) \<noteq> 0 \<and> stopped s \<noteq> 1 \<and> \<not> launchChanClosed s
        \<and> length (launchChan s) < 128 \<longrightarrow>
        trigger [] (Some p) s w
          = Returns (s\<lparr>launchChan := launchChan s @
                        [\<lparr>getterName = [], getter = Some p, queueLength = fst (p w)\<rparr>]\<rparr>,
                     snd (p w)))"
proof -
  have a: "getterName info = [] \<or> getter info = None \<longrightarrow>
      snd (launchEvent opt outOfRange g now now' info s)
        = Some (requestedCount outOfRange now (shrinkTime s) (queueLength info))
      \<and> getters (fst (launchEvent opt outOfRange g now now' info s)) = getters s
      \<and> sourceLastScheduleTimes (fst (launchEvent opt outOfRange g now now' info s))
          = (\<lambda>name. map_option (\<lambda>t. now) (sourceLastScheduleTimes s name))"
  proof
    assume h: "getterName info = [] \<or> getter info = None"
    let ?s1 = "s\<lparr>sourceLastScheduleTimes :=
           (\<lambda>name. map_option (\<lambda>t. now) (sourceLastScheduleTimes s name))\<rparr>"
    have d: "debounce now info s = Some ?s1" using h by (auto simp: debounce_def)
    from launchEvent_calls [OF d] launchEvent_books [OF d]
    show "snd (launchEvent opt outOfRange g now now' info s)
        = Some (requestedCount outOfRange now (shrinkTime s) (queueLength info))
      \<and> getters (fst (launchEvent opt outOfRange g now now' info s)) = getters s
      \<and> sourceLastScheduleTimes (fst (launchEvent opt outOfRange g now now' info s))
          = (\<lambda>name. map_option (\<lambda>t. now) (sourceLastScheduleTimes s name))"
      by simp
  qed
  have b: "fst (p w) \<noteq> 0 \<and> stopped s \<noteq> 1 \<and> \<not> launchChanClosed s
        \<and> length (launchChan s) < 128 \<longrightarrow>
        trigger [] (Some p) s w
          = Returns (s\<lparr>launchChan := launchChan s @
                        [\<lparr>getterName = [], getter = Some p, queueLength = fst (p w)\<rparr>]\<rparr>,
                     snd (p w))"
    by (simp add: trigger_def split: prod.splits)
  from a b show ?thesis by (rule conjI)
qed

theorem sweep_classification_witness:
  "snd (launchEvent exampleOptions wrapOutOfRange alwaysInstance 1200000000 1200000001
        (triggerEvent [] 4) ledgerExample) = Some 4
   \<and> getters (fst (launchEvent exampleOptions wrapOutOfRange alwaysInstance 1200000000
        1200000001 (triggerEvent [] 4) ledgerExample)) ''a'' = None
   \<and> sourceLastScheduleTimes (fst (launchEvent exampleOptions wrapOutOfRange alwaysInstance
        1200000000 1200000001 (triggerEvent [] 4) ledgerExample)) ''a'' = Some 1200000000
   \<and> trigger [] (Some (constGetter 4)) ledgerExample ()
       = Returns (ledgerExample\<lparr>launchChan := [triggerEvent [] 4]\<rparr>, ())"
proof -
  have q: "requestedCount wrapOutOfRange 1200000000 (shrinkTime ledgerExample) 4 = 4"
    by (simp add: requestedCount_def elapsedMsLess_def Sub_def ledgerExample_def
        newDynamicPipelineScheduler_def zeroTime_def SCHEDULER_DYNAMIC_FAST_SCALE_INTERVAL_MS_def
        SCHEDULER_DYNAMIC_SPAWN_MAX_IN_EACH_def)
  show ?thesis
    using q
      sweep_classification [of "triggerEvent [] 4" exampleOptions wrapOutOfRange alwaysInstance
        1200000000 1200000001 ledgerExample "constGetter 4" "()"]
    by (simp add: triggerEvent_def constGetter_def ledgerExample_def
        newDynamicPipelineScheduler_def)
qed

subsection \<open>The trigger hook\<close>

text \<open>
  Claim C10: every call of the trigger hook evaluates the probe once, before it looks
  at \<open>stopped\<close>: whenever the hook returns, the environment is the one after one
  call of the probe on the environment before.  On a stopped scheduler, and when the
  probe reports \<open>0\<close>, the scheduler is unchanged (nothing is posted); the hook
  never blocks; and when it changes the scheduler it has appended one event.
\<close>

theorem trigger_probes_once:
  "(stopped s = 1 \<longrightarrow> trigger name (Some p) s w = Returns (s, snd (p w)))
   \<and> (fst (p w) = 0 \<longrightarrow> trigger name (Some p) s w = Returns (s, snd (p w)))
   \<and> (trigger name (Some p) s w = Returns (s', w') \<longrightarrow> w' = snd (p w))
   \<and> trigger name (Some p) s w \<noteq> Blocks (s', w')
   \<and> (trigger name (Some p) s w = Returns (s', w') \<and> s' \<noteq> s \<longrightarrow>
        fst (p w) \<noteq> 0 \<and> stopped s \<noteq> 1
        \<and> s' = s\<lparr>launchChan := launchChan s @
                   [\<lparr>getterName = name, getter = Some p, queueLength = fst (p w)\<rparr>]\<rparr>)"
  by (cases "p w") (auto simp: trigger_def)

theorem trigger_probes_once_witness:
  "Stop newDynamicPipelineScheduler = Blocks waitingStop
   \<and> stopped waitingStop = 1
   \<and> trigger ''a'' (Some (countingGetter 7)) waitingStop 0 = Returns (waitingStop, 1)
   \<and> fst (countingGetter 0 0) = 0
   \<and> trigger ''a'' (Some (countingGetter 0)) newDynamicPipelineScheduler 0
       = Returns (newDynamicPipelineScheduler :: (nat, nat, unit) dynamicPipelineScheduler, 1)"
proof -
  have b: "Stop newDynamicPipelineScheduler = Blocks waitingStop"
    by (simp add: Stop_def awaitSpawnDone_def waitingStop_def newDynamicPipelineScheduler_def)
  have s: "stopped waitingStop = 1" by (simp add: waitingStop_def)
  have z: "fst (countingGetter 0 0) = 0" by (simp add: countingGetter_def)
  have e: "snd (countingGetter 7 0) = 1" "snd (countingGetter 0 0) = 1"
    by (simp_all add: countingGetter_def)
  have t1: "trigger ''a'' (Some (countingGetter 7)) waitingStop 0
      = Returns (waitingStop, snd (countingGetter 7 0))"
    by (rule trigger_probes_once [of waitingStop _ "countingGetter 7" 0 waitingStop 1,
          THEN conjunct1, THEN mp, OF s])
  have t2: "trigger ''a'' (Some (countingGetter 0)) newDynamicPipelineScheduler 0
      = Returns (newDynamicPipelineScheduler :: (nat, nat, unit) dynamicPipelineScheduler,
                 snd (countingGetter 0 0))"
    by (rule trigger_probes_once [of _ _ "countingGetter 0" 0 newDynamicPipelineScheduler 1,
          THEN conjunct2, THEN conjunct1, THEN mp, OF z])
  show ?thesis
    using b s z t1 [unfolded e] t2 [unfolded e] by (intro conjI)
qed



subsection \<open>The shrinker\<close>

lemma uint_count_le:
  "uint (word_of_nat n :: u32) \<le> int n"
proof -
  have "uint (word_of_nat n :: u32) = int (unat (word_of_nat n :: u32))" by simp
  also have "\<dots> = int (n mod 2 ^ 32)" by (simp only: unat_of_nat) simp
  also have "\<dots> \<le> int n" by simp
  finally show ?thesis .
qed

lemma shrinkLocked_no_panic: "shrinkLocked opt now s \<noteq> Panics"
proof (cases "(word_of_nat (length (instances s)) :: u32) \<le> PipelineMinParallelism opt")
  case True
  then show ?thesis by (simp add: shrinkLocked_def)
next
  case False
  let ?cur = "word_of_nat (length (instances s)) :: u32"
  have "?cur \<noteq> 0" using False by auto
  then have "uint ?cur \<noteq> 0" by (simp only: uint_0_iff) simp
  moreover have "0 \<le> uint ?cur" by simp
  ultimately have "0 \<le> uint ?cur - 1" by linarith
  moreover have "uint ?cur - 1 < int (length (instances s))"
    using uint_count_le [of "length (instances s)"] by linarith
  ultimately show ?thesis by (simp add: shrinkLocked_def Let_def)
qed

lemma shrinkLocked_no_block: "shrinkLocked opt now s \<noteq> Blocks r"
  by (auto simp: shrinkLocked_def Let_def)

lemma shrinkLocked_cooldown:
  "shrinkLocked opt now s = Returns (s', Some popped) \<Longrightarrow>
   \<not> elapsedMsLess (Sub now (launchTime s)) SCHEDULER_DYNAMIC_SHRINK_MIN_DELAY_MS"
  by (auto simp: shrinkLocked_def Let_def split: if_splits)

lemma shrinkLocked_skip:
  "elapsedMsLess (Sub now (launchTime s)) SCHEDULER_DYNAMIC_SHRINK_MIN_DELAY_MS \<Longrightarrow>
   shrinkLocked opt now s = Returns (s, None)"
  by (auto simp: shrinkLocked_def Let_def)

lemma shrinkTick_cases:
  "shrinkTick opt order now s w = Returns (s', popped, w') \<Longrightarrow>
   (s' = s \<and> popped = None) \<or> shrinkLocked opt now s = Returns (s', popped)"
  by (auto simp: shrinkTick_def Let_def split: if_splits prod.splits outcome.splits)

lemma shrinkTick_returns: "\<exists>r. shrinkTick opt order now s w = Returns r"
proof -
  obtain r where "shrinkLocked opt now s = Returns r"
    using shrinkLocked_no_panic [of opt now s] shrinkLocked_no_block [of opt now s]
    by (cases "shrinkLocked opt now s") auto
  then show ?thesis
    by (auto simp: shrinkTick_def Let_def split: prod.splits)
qed

lemma shrinkLocked_pop:
  assumes cap: "length (instances s) \<le> unat (PipelineMaxParallelism opt)"
    and r: "shrinkLocked opt now s = Returns (s', popped)"
  shows "(popped = None \<and> s' = s)
     \<or> (unat (PipelineMinParallelism opt) < length (instances s)
        \<and> s' = s\<lparr>instances := butlast (instances s), shrinkTime := now\<rparr>
        \<and> popped = Some (length (instances s) - 1, last (instances s)))"
proof -
  let ?n = "length (instances s)"
  let ?cur = "word_of_nat ?n :: u32"
  have M: "unat (PipelineMaxParallelism opt) < 2 ^ 32"
    using unsigned_less [of "PipelineMaxParallelism opt", where 'a = nat] by simp
  have cur: "unat ?cur = ?n" using cap M by (simp add: unat_of_nat)
  then have ucur: "uint ?cur = int ?n" by (metis uint_nat)
  show ?thesis
  proof (cases "?cur \<le> PipelineMinParallelism opt
      \<or> elapsedMsLess (Sub now (launchTime s)) SCHEDULER_DYNAMIC_SHRINK_MIN_DELAY_MS")
    case True
    then have "shrinkLocked opt now s = Returns (s, None)"
      by (auto simp: shrinkLocked_def Let_def)
    then show ?thesis using r by simp
  next
    case False
    then have gt: "unat (PipelineMinParallelism opt) < ?n"
      using cur by (simp add: word_le_nat_alt)
    then have ne: "instances s \<noteq> []" by auto
    have idx: "nat (uint ?cur - 1) = ?n - 1" using ucur by simp
    have "\<not> (uint ?cur - 1 < 0 \<or> int ?n \<le> uint ?cur - 1)" using ucur gt ne by simp
    then have "s' = s\<lparr>instances := take (?n - 1) (instances s), shrinkTime := now\<rparr>"
      and "popped = Some (?n - 1, instances s ! (?n - 1))"
      using r False idx by (simp_all add: shrinkLocked_def Let_def)
    moreover have "take (?n - 1) (instances s) = butlast (instances s)"
      by (simp add: butlast_conv_take)
    moreover have "instances s ! (?n - 1) = last (instances s)"
      using ne by (simp add: last_conv_nth)
    ultimately show ?thesis using gt by simp
  qed
qed

lemma busyExample_eq:
  "busyExample =
     \<lparr>instances = [newPipelineInstance 0, newPipelineInstance 1], started = 1, stopped = 0,
      ctx = Some (), getters = Map.empty, launchChan = [], launchChanClosed = False,
      spawnStop = False, spawnDone = False, shrinkStop = False,
      sourceLastScheduleTimes = Map.empty, launchTime = 3000000000, shrinkTime = zeroTime,
      goroutines = [LaunchTask, SpawnTask, ShrinkTask]\<rparr>"
  by (simp add: busyExample_def startedExample_def Start_def startPipeline_def
      startPipeline_loop.simps exampleOptions_def alwaysInstance_def
      newDynamicPipelineScheduler_def Let_def)

lemma failedStartExample_eq:
  "failedStartExample =
     \<lparr>instances = [], started = 1, stopped = 0,
      ctx = Some (), getters = Map.empty, launchChan = [], launchChanClosed = False,
      spawnStop = False, spawnDone = False, shrinkStop = False,
      sourceLastScheduleTimes = Map.empty, launchTime = zeroTime, shrinkTime = zeroTime,
      goroutines = [LaunchTask, SpawnTask, ShrinkTask]\<rparr>"
  by (simp add: failedStartExample_def Start_def startPipeline_def
      startPipeline_loop.simps exampleOptions_def neverInstance_def
      newDynamicPipelineScheduler_def Let_def)

lemma busy_tick_early:
  "shrinkTick exampleOptions [] 3200000000 busyExample () = Returns (busyExample, None, ())"
  by (simp add: busyExample_eq shrinkTick_def shrinkLocked_def exampleOptions_def
      List.map_filter_simps elapsedMsLess_def Sub_def
      SCHEDULER_DYNAMIC_SHRINK_MIN_DELAY_MS_def Let_def)

lemma busy_tick_late:
  "shrinkTick exampleOptions [] 3600000000 busyExample ()
     = Returns (busyExample\<lparr>instances := [newPipelineInstance 0], shrinkTime := 3600000000\<rparr>,
                Some (1, newPipelineInstance 1), ())"
  by (simp add: busyExample_eq shrinkTick_def shrinkLocked_def exampleOptions_def
      List.map_filter_simps elapsedMsLess_def Sub_def word_le_nat_alt
      SCHEDULER_DYNAMIC_SHRINK_MIN_DELAY_MS_def Let_def)

text \<open>
  Claim C7: a tick of the shrinker that pops a worker at the instant \<open>now\<close> has
  \<open>now - launchTime\<close> of at least \<open>SCHEDULER_DYNAMIC_SHRINK_MIN_DELAY_MS\<close>
  (500 ms, that is \<open>500 * 10^6\<close> nanoseconds); a tick less than 500 ms after
  \<open>launchTime\<close> returns the scheduler as it was, worker set and \<open>shrinkTime\<close>
  included.
\<close>

theorem shrink_cooldown:
  "(shrinkTick opt order now s w = Returns (s', Some popped, w') \<longrightarrow>
      \<not> elapsedMsLess (Sub now (launchTime s)) SCHEDULER_DYNAMIC_SHRINK_MIN_DELAY_MS
      \<and> 500 * 1000000 \<le> Sub now (launchTime s))
   \<and> (elapsedMsLess (Sub now (launchTime s)) SCHEDULER_DYNAMIC_SHRINK_MIN_DELAY_MS \<longrightarrow>
        (\<exists>w'. shrinkTick opt order now s w = Returns (s, None, w')))"
proof -
  have a: "shrinkTick opt order now s w = Returns (s', Some popped, w') \<longrightarrow>
      \<not> elapsedMsLess (Sub now (launchTime s)) SCHEDULER_DYNAMIC_SHRINK_MIN_DELAY_MS
      \<and> 500 * 1000000 \<le> Sub now (launchTime s)"
  proof
    assume "shrinkTick opt order now s w = Returns (s', Some popped, w')"
    from shrinkTick_cases [OF this]
    have "shrinkLocked opt now s = Returns (s', Some popped)" by simp
    then have "\<not> elapsedMsLess (Sub now (launchTime s)) SCHEDULER_DYNAMIC_SHRINK_MIN_DELAY_MS"
      by (rule shrinkLocked_cooldown)
    then show "\<not> elapsedMsLess (Sub now (launchTime s)) SCHEDULER_DYNAMIC_SHRINK_MIN_DELAY_MS
      \<and> 500 * 1000000 \<le> Sub now (launchTime s)"
      by (simp add: elapsedMsLess_def SCHEDULER_DYNAMIC_SHRINK_MIN_DELAY_MS_def)
  qed
  have b: "elapsedMsLess (Sub now (launchTime s)) SCHEDULER_DYNAMIC_SHRINK_MIN_DELAY_MS \<longrightarrow>
        (\<exists>w'. shrinkTick opt order now s w = Returns (s, None, w'))"
  proof
    assume "elapsedMsLess (Sub now (launchTime s)) SCHEDULER_DYNAMIC_SHRINK_MIN_DELAY_MS"
    then have "shrinkLocked opt now s = Returns (s, None)" by (rule shrinkLocked_skip)
    then show "\<exists>w'. shrinkTick opt order now s w = Returns (s, None, w')"
      by (auto simp: shrinkTick_def Let_def split: prod.splits)
  qed
  from a b show ?thesis by (rule conjI)
qed


theorem shrink_cooldown_witness:
  "elapsedMsLess (Sub 3200000000 (launchTime busyExample)) SCHEDULER_DYNAMIC_SHRINK_MIN_DELAY_MS
   \<and> shrinkTick exampleOptions [] 3200000000 busyExample () = Returns (busyExample, None, ())
   \<and> shrinkTick exampleOptions [] 3600000000 busyExample ()
       = Returns (busyExample\<lparr>instances := [newPipelineInstance 0], shrinkTime := 3600000000\<rparr>,
                  Some (1, newPipelineInstance 1), ())
   \<and> 500 * 1000000 \<le> Sub 3600000000 (launchTime busyExample)"
proof -
  have e: "elapsedMsLess (Sub 3200000000 (launchTime busyExample))
      SCHEDULER_DYNAMIC_SHRINK_MIN_DELAY_MS"
    by (simp add: busyExample_eq elapsedMsLess_def Sub_def
        SCHEDULER_DYNAMIC_SHRINK_MIN_DELAY_MS_def)
  have "500 * 1000000 \<le> Sub 3600000000 (launchTime busyExample)"
    using shrink_cooldown [of exampleOptions "[]" 3600000000 busyExample "()"
        "busyExample\<lparr>instances := [newPipelineInstance 0], shrinkTime := 3600000000\<rparr>"
        "(1, newPipelineInstance 1)" "()"]
      busy_tick_late
    by simp
  then show ?thesis using e busy_tick_early busy_tick_late by simp
qed

text \<open>
  Claim C8, as the spec states it: after any tick of the shrinker, while started and
  not stopped, the worker set holds at least \<open>PipelineMinParallelism\<close> handles.
  The shrinker only removes: after a \<open>Start\<close> whose \<open>GetInstance\<close> failed the
  set is empty, the scheduler is started and not stopped, and a tick leaves the set
  empty, below a floor of \<open>1\<close>.
\<close>

theorem shrink_below_floor:
  "started failedStartExample = 1
   \<and> stopped failedStartExample = 0
   \<and> shrinkTick exampleOptions [] 2000000000 failedStartExample ()
       = Returns (failedStartExample, None, ())
   \<and> length (instances failedStartExample) = 0
   \<and> unat (PipelineMinParallelism exampleOptions) = 1"
  by (simp add: failedStartExample_eq shrinkTick_def exampleOptions_def Let_def)

text \<open>
  Claim C8, amended: on a worker set within the cap, a tick of the shrinker that pops
  nothing leaves the scheduler as it was; a tick that pops removes exactly the tail of
  the set, and only from a set that strictly exceeds \<open>PipelineMinParallelism\<close>;
  so a tick never takes the set below the floor: a set of at least
  \<open>PipelineMinParallelism\<close> handles before the tick has at least that many after
  it.
\<close>

theorem shrink_floor:
  assumes cap: "length (instances s) \<le> unat (PipelineMaxParallelism opt)"
    and r: "shrinkTick opt order now s w = Returns (s', popped, w')"
  shows "(popped = None \<longrightarrow> s' = s)
     \<and> (\<forall>idx h. popped = Some (idx, h) \<longrightarrow>
          instances s = instances s' @ [h] \<and> idx = length (instances s')
          \<and> unat (PipelineMinParallelism opt) < length (instances s)
          \<and> shrinkTime s' = now)
     \<and> (unat (PipelineMinParallelism opt) \<le> length (instances s) \<longrightarrow>
          unat (PipelineMinParallelism opt) \<le> length (instances s'))"
proof -
  from shrinkTick_cases [OF r]
  have "(popped = None \<and> s' = s)
     \<or> (unat (PipelineMinParallelism opt) < length (instances s)
        \<and> s' = s\<lparr>instances := butlast (instances s), shrinkTime := now\<rparr>
        \<and> popped = Some (length (instances s) - 1, last (instances s)))"
    using shrinkLocked_pop [OF cap] by blast
  then show ?thesis
  proof
    assume "popped = None \<and> s' = s"
    then show ?thesis by simp
  next
    assume p: "unat (PipelineMinParallelism opt) < length (instances s)
        \<and> s' = s\<lparr>instances := butlast (instances s), shrinkTime := now\<rparr>
        \<and> popped = Some (length (instances s) - 1, last (instances s))"
    then have "instances s \<noteq> []" by auto
    then have "butlast (instances s) @ [last (instances s)] = instances s" by simp
    then show ?thesis using p by auto
  qed
qed


theorem shrink_floor_witness:
  "length (instances busyExample) \<le> unat (PipelineMaxParallelism exampleOptions)
   \<and> shrinkTick exampleOptions [] 3600000000 busyExample ()
       = Returns (busyExample\<lparr>instances := [newPipelineInstance 0], shrinkTime := 3600000000\<rparr>,
                  Some (1, newPipelineInstance 1), ())
   \<and> instances busyExample = [newPipelineInstance 0] @ [newPipelineInstance 1]
   \<and> unat (PipelineMinParallelism exampleOptions) \<le> length (instances busyExample)
   \<and> unat (PipelineMinParallelism exampleOptions)
       \<le> length (instances (busyExample\<lparr>instances := [newPipelineInstance 0],
                                         shrinkTime := 3600000000\<rparr>))"
proof -
  have c: "length (instances busyExample) \<le> unat (PipelineMaxParallelism exampleOptions)"
    by (simp add: busyExample_eq exampleOptions_def)
  have m: "unat (PipelineMinParallelism exampleOptions) \<le> length (instances busyExample)"
    by (simp add: busyExample_eq exampleOptions_def)
  from shrink_floor [OF c busy_tick_late]
  show ?thesis using c m busy_tick_late by simp
qed


end
